theory Spec2Isabelle
  imports Main "HOL-Library.Monad_Syntax"
begin

text \<open>
  A model of \<open>sat_parallel.cpp\<close>, the layer through which the solvers of a portfolio share
  learned clauses and unit literals: the vector pool, a ring buffer of records with one write
  cursor and one read cursor per consumer; the heuristic that selects the clauses to share; the
  exchange of unit literals; and the creation of the solver clones. Every operation is a function
  of the state it reads to the state it leaves. The result \<open>None\<close> stands for a failed
  assertion, for an access outside a container, and for a loop that does not return.
\<close>

section \<open>Machine arithmetic and containers\<close>

text \<open>
  The C++ type \<open>unsigned\<close> is modelled by \<open>nat\<close> with the 32-bit wrap-around written out
  at every arithmetic operation of the source.
\<close>

definition u32 :: "nat \<Rightarrow> nat" where
  "u32 x = x mod 4294967296"

text \<open>
  Modelled from the spec: the buffer is a "flat mutable sequence of unsigned integers"; the
  container class behind \<open>m_vectors\<close>, \<open>m_heads\<close> and \<open>m_at_end\<close> is declared outside
  the source file. \<open>resize\<close> cuts or pads with the given element, \<open>reserve\<close> pads
  when the requested size exceeds the current one, and an access outside the current size is a
  failed bounds assertion, written \<open>None\<close> here.
\<close>

definition vec_resize :: "'a list \<Rightarrow> nat \<Rightarrow> 'a \<Rightarrow> 'a list" where
  "vec_resize xs s d = (if s \<le> length xs then take s xs else xs @ replicate (s - length xs) d)"

definition vec_reserve :: "'a list \<Rightarrow> nat \<Rightarrow> 'a \<Rightarrow> 'a list" where
  "vec_reserve xs s d = (if length xs < s then vec_resize xs s d else xs)"

definition vec_get :: "'a list \<Rightarrow> nat \<Rightarrow> 'a option" where
  "vec_get xs i = (if i < length xs then Some (xs ! i) else None)"

definition vec_set :: "'a list \<Rightarrow> nat \<Rightarrow> 'a \<Rightarrow> 'a list option" where
  "vec_set xs i v = (if i < length xs then Some (xs[i := v]) else None)"

section \<open>The vector pool\<close>

record vector_pool =
  m_vectors :: "nat list"
  m_size :: nat
  m_tail :: nat
  m_heads :: "nat list"
  m_at_end :: "bool list"

text \<open>
  Modelled from the spec: a record holds "a 2-word header (owner, len) followed by len payload
  words"; the three accessors are declared outside the source file. The pointer returned by
  \<open>get_ptr\<close> is represented by the offset of the first payload word.
\<close>

definition get_owner :: "vector_pool \<Rightarrow> nat \<Rightarrow> nat option" where
  "get_owner p index = vec_get (m_vectors p) index"

definition get_length :: "vector_pool \<Rightarrow> nat \<Rightarrow> nat option" where
  "get_length p index = vec_get (m_vectors p) (u32 (index + 1))"

definition get_ptr :: "vector_pool \<Rightarrow> nat \<Rightarrow> nat" where
  "get_ptr p index = index + 2"

text \<open>
  \<open>vector_pool::next\<close>. A failed \<open>SASSERT\<close> is the result \<open>None\<close>, as is every failed
  bounds check of a container.
\<close>

definition next_index :: "vector_pool \<Rightarrow> nat \<Rightarrow> nat option" where
  "next_index p index =
     (if \<not> index < m_size p then None
      else do {
        len \<leftarrow> get_length p index;
        let n = u32 (index + 2 + len);
        Some (if m_size p \<le> n then 0 else n)
      })"

definition reserve :: "nat \<Rightarrow> nat \<Rightarrow> vector_pool" where
  "reserve num_threads sz =
     \<lparr> m_vectors = vec_resize [] sz 0,
       m_size = sz,
       m_tail = 0,
       m_heads = vec_resize [] num_threads 0,
       m_at_end = vec_resize [] num_threads True \<rparr>"

text \<open>
  The inner \<open>while\<close> loop of \<open>begin_add_vector\<close> for consumer \<open>i\<close>. It need not terminate
  on an arbitrary pool, so not returning is the value \<open>None\<close>.
\<close>

partial_function (option) advance_head :: "nat \<Rightarrow> nat \<Rightarrow> vector_pool \<Rightarrow> vector_pool option" where
  "advance_head capacity i p =
     do {
       h \<leftarrow> vec_get (m_heads p) i;
       if m_tail p < h \<and> h < u32 (m_tail p + capacity)
       then do {
         h' \<leftarrow> next_index p h;
         advance_head capacity i (p\<lparr>m_heads := (m_heads p)[i := h']\<rparr>)
       }
       else Some p
     }"

declare advance_head.simps [code]

text \<open>The \<open>for\<close> loop of \<open>begin_add_vector\<close>, over the consumer indices still to visit.\<close>

fun advance_heads :: "nat \<Rightarrow> nat list \<Rightarrow> vector_pool \<Rightarrow> vector_pool option" where
  "advance_heads capacity [] p = Some p"
| "advance_heads capacity (i # js) p =
     do {
       p1 \<leftarrow> advance_head capacity i p;
       ae \<leftarrow> vec_set (m_at_end p1) i False;
       advance_heads capacity js (p1\<lparr>m_at_end := ae\<rparr>)
     }"

text \<open>The statement \<open>m_vectors[m_tail++] = v\<close>.\<close>

definition put_word :: "nat \<Rightarrow> vector_pool \<Rightarrow> vector_pool option" where
  "put_word v p =
     do {
       vs \<leftarrow> vec_set (m_vectors p) (m_tail p) v;
       Some (p\<lparr>m_vectors := vs, m_tail := u32 (m_tail p + 1)\<rparr>)
     }"

definition begin_add_vector :: "nat \<Rightarrow> nat \<Rightarrow> vector_pool \<Rightarrow> vector_pool option" where
  "begin_add_vector owner n p =
     (if \<not> m_tail p < m_size p then None
      else do {
        let capacity = u32 (n + 2);
        let p1 = p\<lparr>m_vectors := vec_reserve (m_vectors p) (u32 (m_size p + capacity)) 0\<rparr>;
        p2 \<leftarrow> advance_heads capacity [0..<length (m_heads p1)] p1;
        p3 \<leftarrow> put_word owner p2;
        put_word n p3
      })"

definition add_vector_elem :: "nat \<Rightarrow> vector_pool \<Rightarrow> vector_pool option" where
  "add_vector_elem e p = put_word e p"

definition end_add_vector :: "vector_pool \<Rightarrow> vector_pool" where
  "end_add_vector p = (if m_size p \<le> m_tail p then p\<lparr>m_tail := 0\<rparr> else p)"

text \<open>
  The complete producer protocol, as both overloads of \<open>share_clause\<close> run it inside the
  critical section: \<open>begin_add_vector\<close>, one \<open>add_vector_elem\<close> per word, \<open>end_add_vector\<close>.
\<close>

fun add_vector_elems :: "nat list \<Rightarrow> vector_pool \<Rightarrow> vector_pool option" where
  "add_vector_elems [] p = Some p"
| "add_vector_elems (e # es) p = do { p1 \<leftarrow> add_vector_elem e p; add_vector_elems es p1 }"

definition add_vector :: "nat \<Rightarrow> nat list \<Rightarrow> vector_pool \<Rightarrow> vector_pool option" where
  "add_vector owner es p =
     do {
       p1 \<leftarrow> begin_add_vector owner (u32 (length es)) p;
       p2 \<leftarrow> add_vector_elems es p1;
       Some (end_add_vector p2)
     }"

text \<open>
  \<open>get_vector\<close> returns \<open>false\<close> (\<open>No_vector\<close>) or \<open>true\<close> together with the length and the
  pointer of the record found. The loop carries the locals \<open>head\<close> and \<open>iterations\<close>; it
  need not terminate on an arbitrary pool.
\<close>

datatype fetched = No_vector | Vector nat nat

partial_function (option) get_vector_loop ::
  "nat \<Rightarrow> nat \<Rightarrow> nat \<Rightarrow> vector_pool \<Rightarrow> (fetched \<times> nat \<times> vector_pool) option" where
  "get_vector_loop owner head iterations p =
     do {
       continue \<leftarrow> (if head \<noteq> m_tail p then Some True
                   else map_option Not (vec_get (m_at_end p) owner));
       if continue
       then
         (if \<not> (head < m_size p \<and> m_tail p < m_size p) then None
          else do {
            w \<leftarrow> get_owner p head;
            h \<leftarrow> vec_get (m_heads p) owner;
            h' \<leftarrow> next_index p h;
            let p1 = p\<lparr>m_heads := (m_heads p)[owner := h']\<rparr>;
            ae \<leftarrow> vec_set (m_at_end p1) owner (h' = m_tail p1);
            let p2 = p1\<lparr>m_at_end := ae\<rparr>;
            if owner \<noteq> w
            then do {
              n \<leftarrow> get_length p2 head;
              Some (Vector n (get_ptr p2 head), u32 (iterations + 1), p2)
            }
            else get_vector_loop owner h' (u32 (iterations + 1)) p2
          })
       else Some (No_vector, iterations, p)
     }"

declare get_vector_loop.simps [code]

definition get_vector :: "nat \<Rightarrow> vector_pool \<Rightarrow> (fetched \<times> vector_pool) option" where
  "get_vector owner p =
     do {
       head \<leftarrow> vec_get (m_heads p) owner;
       (r, iterations, p') \<leftarrow> get_vector_loop owner head 0 p;
       Some (r, p')
     }"

text \<open>The words a caller reads through the returned pointer: \<open>ptr[0]\<close> to \<open>ptr[n - 1]\<close>.\<close>

definition read_vector :: "vector_pool \<Rightarrow> nat \<Rightarrow> nat \<Rightarrow> nat list option" where
  "read_vector p n ptr =
     (if ptr + n \<le> length (m_vectors p) then Some (take n (drop ptr (m_vectors p))) else None)"

section \<open>The share heuristic\<close>

record clause =
  clause_size :: nat
  clause_glue :: nat

definition enable_add :: "clause \<Rightarrow> bool" where
  "enable_add c = ((clause_size c \<le> 40 \<and> clause_glue c \<le> 8) \<or> clause_glue c \<le> 2)"

section \<open>The coordinator\<close>

text \<open>
  A literal is known to this file only through \<open>index()\<close> and \<open>to_literal\<close>, which are
  inverse to each other.
\<close>

datatype sat_literal = to_literal (index: nat)

text \<open>
  Modelled from the spec: the solver offers "a configuration read/write surface for at least
  the random-seed and search-phase options", "a per-solver integer id and a per-solver
  reentrancy flag, both assigned/owned by the Coordinator", and "every clone's and the master's
  reentrancy flag starts cleared"; each clone "receives a fresh random seed derived from the
  master". The classes \<open>params_ref\<close> and \<open>solver\<close> are declared outside the source file.
  A parameter set maps names to values, \<open>get_sym\<close> reads a symbol with a default,
  \<open>set_par\<close> assigns the id and clears the flag, and a new solver is configured by the
  parameter set handed to its constructor.
\<close>

datatype param_value = P_uint nat | P_sym string

type_synonym params_ref = "string \<rightharpoonup> param_value"

definition get_sym :: "params_ref \<Rightarrow> string \<Rightarrow> string \<Rightarrow> string" where
  "get_sym ps k d = (case ps k of Some (P_sym v) \<Rightarrow> v | _ \<Rightarrow> d)"

definition set_sym :: "params_ref \<Rightarrow> string \<Rightarrow> string \<Rightarrow> params_ref" where
  "set_sym ps k v = ps(k \<mapsto> P_sym v)"

definition set_uint :: "params_ref \<Rightarrow> string \<Rightarrow> nat \<Rightarrow> params_ref" where
  "set_uint ps k v = ps(k \<mapsto> P_uint v)"

record solver =
  m_params :: params_ref
  m_rand :: nat
  m_par_id :: nat
  m_par_syncing_clauses :: bool

definition set_par :: "solver \<Rightarrow> nat \<Rightarrow> solver" where
  "set_par s i = s\<lparr>m_par_id := i, m_par_syncing_clauses := False\<rparr>"

definition new_solver :: "params_ref \<Rightarrow> nat \<Rightarrow> solver" where
  "new_solver ps seed = \<lparr>m_params = ps, m_rand = seed, m_par_id = 0, m_par_syncing_clauses = False\<rparr>"

text \<open>
  The coordinator. The resource limits (\<open>m_limits\<close>, \<open>m_scoped_rlimit\<close>) carry no data
  that the operations below read, and are left out.
\<close>

record parallel =
  m_pool :: vector_pool
  m_unit_set :: "nat set"
  m_units :: "sat_literal list"
  m_solvers :: "solver option list"

text \<open>
  \<open>init_solvers\<close>. The random generator of the master, \<open>s.m_rand()\<close>, is a parameter
  \<open>gen\<close> from the generator's state to the number drawn and the next state. The second
  \<open>for\<close> loop runs over the indices still to visit; it writes the master's parameter set in
  place and hands it to the constructor of each clone.
\<close>

fun init_solvers_loop ::
  "(nat \<Rightarrow> nat \<times> nat) \<Rightarrow> nat \<Rightarrow> nat list \<Rightarrow> solver \<times> solver option list
     \<Rightarrow> solver \<times> solver option list" where
  "init_solvers_loop gen num_threads [] (s, solvers) = (s, solvers)"
| "init_solvers_loop gen num_threads (i # js) (s, solvers) =
     (let (seed, g) = gen (m_rand s);
          s1 = s\<lparr>m_rand := g, m_params := set_uint (m_params s) ''random_seed'' seed\<rparr>;
          s2 = (if i = u32 (1 + num_threads div 2)
                then s1\<lparr>m_params := set_sym (m_params s1) ''phase'' ''random''\<rparr> else s1)
      in init_solvers_loop gen num_threads js
           (s2, solvers[i := Some (set_par (new_solver (m_params s2) seed) i)]))"

definition init_solvers ::
  "(nat \<Rightarrow> nat \<times> nat) \<Rightarrow> nat \<Rightarrow> solver \<Rightarrow> parallel \<Rightarrow> solver \<times> parallel" where
  "init_solvers gen num_extra_solvers s par =
     (let num_threads = u32 (num_extra_solvers + 1);
          solvers = vec_resize (m_solvers par) num_extra_solvers None;
          saved_phase = get_sym (m_params s) ''phase'' ''caching'';
          (s1, solvers1) = init_solvers_loop gen num_threads [0..<num_extra_solvers] (s, solvers);
          s2 = set_par s1 num_extra_solvers
      in (s2\<lparr>m_params := set_sym (m_params s2) ''phase'' saved_phase\<rparr>,
          par\<lparr>m_solvers := solvers1\<rparr>))"

text \<open>
  \<open>exchange\<close>. The loop over \<open>in\<close> is \<open>add_units\<close>. The guard object restores the
  caller's flag when the call returns, so the caller is the same before and after; the results
  are the new \<open>limit\<close>, the new \<open>out\<close> and the coordinator.
\<close>

fun add_units :: "sat_literal list \<Rightarrow> nat set \<times> sat_literal list \<Rightarrow> nat set \<times> sat_literal list" where
  "add_units [] (unit_set, units) = (unit_set, units)"
| "add_units (lit # lits) (unit_set, units) =
     (if index lit \<notin> unit_set
      then add_units lits (insert (index lit) unit_set, units @ [lit])
      else add_units lits (unit_set, units))"

definition exchange ::
  "solver \<Rightarrow> sat_literal list \<Rightarrow> nat \<Rightarrow> sat_literal list \<Rightarrow> parallel
     \<Rightarrow> nat \<times> sat_literal list \<times> parallel" where
  "exchange s inp limit out par =
     (if m_par_syncing_clauses s then (limit, out, par)
      else
        let out1 = (if limit < length (m_units par)
                    then out @ take (length (m_units par) - limit) (drop limit (m_units par))
                    else out);
            (unit_set, units) = add_units inp (m_unit_set par, m_units par)
        in (length units, out1, par\<lparr>m_unit_set := unit_set, m_units := units\<rparr>))"

section \<open>Notions used in the statements\<close>

text \<open>
  The unit log is consistent when the set holds exactly the indices of the logged literals and
  no index is logged twice. A coordinator starts with an empty log and an empty set.
\<close>

definition units_inv :: "parallel \<Rightarrow> bool" where
  "units_inv par \<longleftrightarrow>
     m_unit_set par = index ` set (m_units par) \<and> distinct (map index (m_units par))"

text \<open>The search-phase policy a solver's parameter set gives it.\<close>

definition phase_of :: "solver \<Rightarrow> string" where
  "phase_of s = get_sym (m_params s) ''phase'' ''caching''"

text \<open>The loop index at which \<open>init_solvers\<close> switches the phase option to \<open>random\<close>.\<close>

definition switch_index :: "nat \<Rightarrow> nat" where
  "switch_index k = u32 (1 + u32 (k + 1) div 2)"

text \<open>The state of the random generator after \<open>n\<close> draws.\<close>

fun rand_state :: "(nat \<Rightarrow> nat \<times> nat) \<Rightarrow> nat \<Rightarrow> nat \<Rightarrow> nat" where
  "rand_state gen 0 g = g"
| "rand_state gen (Suc n) g = rand_state gen n (snd (gen g))"

text \<open>Concrete inputs for the examples: a generator that counts, a master, a coordinator.\<close>

definition counter_gen :: "nat \<Rightarrow> nat \<times> nat" where
  "counter_gen g = (g, Suc g)"

definition master0 :: solver where
  "master0 = \<lparr>m_params = [''random_seed'' \<mapsto> P_uint 0], m_rand = 7, m_par_id = 0,
               m_par_syncing_clauses = False\<rparr>"

definition parallel0 :: parallel where
  "parallel0 = \<lparr>m_pool = reserve 0 0, m_unit_set = {}, m_units = [], m_solvers = []\<rparr>"

definition solver0 :: "nat \<Rightarrow> bool \<Rightarrow> solver" where
  "solver0 i syncing =
     \<lparr>m_params = Map.empty, m_rand = 0, m_par_id = i, m_par_syncing_clauses = syncing\<rparr>"

section \<open>Record layout of the vector pool\<close>

text \<open>
  The record that starts at \<open>h\<close> ends at \<open>record_end vs h\<close>; \<open>circ_next\<close> is the
  position \<open>next\<close> moves a cursor to when nothing overflows.
\<close>

definition record_end :: "nat list \<Rightarrow> nat \<Rightarrow> nat" where
  "record_end vs h = h + 2 + vs ! (h + 1)"

definition circ_next :: "nat list \<Rightarrow> nat \<Rightarrow> nat \<Rightarrow> nat" where
  "circ_next vs sz h = (if sz \<le> record_end vs h then 0 else record_end vs h)"

text \<open>
  \<open>chain vs t h\<close>: records lie end to end from \<open>h\<close> up to exactly \<open>t\<close>.
  \<open>wraps vs sz h\<close>: records lie end to end from \<open>h\<close>, and the last of them starts
  before \<open>sz\<close>, ends at or after \<open>sz\<close> and lies inside the vector.
\<close>

inductive chain :: "nat list \<Rightarrow> nat \<Rightarrow> nat \<Rightarrow> bool" for vs t where
  chain_refl: "chain vs t t"
| chain_step: "record_end vs h \<le> t \<Longrightarrow> chain vs t (record_end vs h) \<Longrightarrow> chain vs t h"

inductive wraps :: "nat list \<Rightarrow> nat \<Rightarrow> nat \<Rightarrow> bool" for vs sz where
  wraps_last: "h < sz \<Longrightarrow> sz \<le> record_end vs h \<Longrightarrow> record_end vs h \<le> length vs \<Longrightarrow> wraps vs sz h"
| wraps_step: "record_end vs h < sz \<Longrightarrow> wraps vs sz (record_end vs h) \<Longrightarrow> wraps vs sz h"

code_pred chain .

code_pred wraps .

text \<open>
  A read cursor \<open>h\<close> with at-tail flag \<open>a\<close> is in order when it has caught up with the
  write cursor, or lies behind it on the records of the current pass, or lies at or after it on
  records of the previous pass that are still whole.
\<close>

definition head_ok :: "nat list \<Rightarrow> nat \<Rightarrow> nat \<Rightarrow> nat \<Rightarrow> bool \<Rightarrow> bool" where
  "head_ok vs sz t h a \<longleftrightarrow> (h = t \<and> a) \<or> (h < t \<and> chain vs t h) \<or> (t \<le> h \<and> wraps vs sz h)"

definition pool_inv :: "vector_pool \<Rightarrow> bool" where
  "pool_inv p \<longleftrightarrow>
     m_tail p < m_size p \<and> m_size p \<le> length (m_vectors p) \<and>
     length (m_vectors p) < 4294967296 \<and>
     length (m_at_end p) = length (m_heads p) \<and>
     chain (m_vectors p) (m_tail p) 0 \<and>
     (\<forall>i<length (m_heads p).
        head_ok (m_vectors p) (m_size p) (m_tail p) (m_heads p ! i) (m_at_end p ! i))"

text \<open>
  The pools that arise: from \<open>reserve\<close> with a positive size, by complete writes of records
  that a vector indexed by \<open>unsigned\<close> can hold, and by reads.
\<close>

inductive reachable :: "vector_pool \<Rightarrow> bool" where
  reach_reserve: "0 < sz \<Longrightarrow> sz < 4294967296 \<Longrightarrow> reachable (reserve num_threads sz)"
| reach_add: "reachable p \<Longrightarrow> m_size p + length es + 2 < 4294967296 \<Longrightarrow>
     add_vector owner es p = Some p' \<Longrightarrow> reachable p'"
| reach_get: "reachable p \<Longrightarrow> get_vector c p = Some (r, p') \<Longrightarrow> reachable p'"

text \<open>
  \<open>skips vs sz c h h'\<close>: a cursor gets from \<open>h\<close> to \<open>h'\<close> over records that are all owned
  by \<open>c\<close>. \<open>fetch_ok\<close> relates the cursor \<open>h\<close> of consumer \<open>c\<close> before a read to the
  result \<open>r\<close> and the cursor \<open>h'\<close> after it.
\<close>

inductive skips :: "nat list \<Rightarrow> nat \<Rightarrow> nat \<Rightarrow> nat \<Rightarrow> nat \<Rightarrow> bool" for vs sz c where
  skips_refl: "skips vs sz c h h"
| skips_step: "vs ! h = c \<Longrightarrow> skips vs sz c (circ_next vs sz h) h' \<Longrightarrow> skips vs sz c h h'"

code_pred skips .

definition fetch_ok :: "nat list \<Rightarrow> nat \<Rightarrow> nat \<Rightarrow> nat \<Rightarrow> nat \<Rightarrow> fetched \<Rightarrow> nat \<Rightarrow> bool" where
  "fetch_ok vs sz t c h r h' \<longleftrightarrow>
     (case r of
        No_vector \<Rightarrow> h' = t \<and> skips vs sz c h t
      | Vector n ptr \<Rightarrow>
          (\<exists>pos. ptr = pos + 2 \<and> n = vs ! (pos + 1) \<and> skips vs sz c h pos \<and> vs ! pos \<noteq> c \<and>
                 h' = circ_next vs sz pos))"

text \<open>\<open>store vs t ws\<close> is \<open>vs\<close> with the words \<open>ws\<close> written from position \<open>t\<close> on.\<close>

definition store :: "nat list \<Rightarrow> nat \<Rightarrow> nat list \<Rightarrow> nat list" where
  "store vs t ws = take t vs @ ws @ drop (t + length ws) vs"

text \<open>The pool after consumer \<open>c\<close> has moved its cursor to \<open>h'\<close> in a read.\<close>

definition moved :: "vector_pool \<Rightarrow> nat \<Rightarrow> nat \<Rightarrow> vector_pool" where
  "moved p c h' =
     p\<lparr>m_heads := (m_heads p)[c := h'], m_at_end := (m_at_end p)[c := (h' = m_tail p)]\<rparr>"

text \<open>
  \<open>passes vs sz h h'\<close>: a cursor gets from \<open>h\<close> to \<open>h'\<close> by passing whole records, and
  goes no further once it has wrapped to \<open>0\<close>.
\<close>

inductive passes :: "nat list \<Rightarrow> nat \<Rightarrow> nat \<Rightarrow> nat \<Rightarrow> bool" for vs sz where
  passes_refl: "passes vs sz h h"
| passes_step: "record_end vs h < sz \<Longrightarrow> passes vs sz (record_end vs h) h' \<Longrightarrow> passes vs sz h h'"
| passes_wrap: "sz \<le> record_end vs h \<Longrightarrow> passes vs sz h 0"

code_pred passes .

text \<open>
  \<open>pushed vs sz t cap h h'\<close>: what \<open>begin_add_vector\<close> does to a cursor \<open>h\<close> when the
  record to write takes \<open>cap\<close> words from \<open>t\<close> on. The new cursor \<open>h'\<close> is not strictly
  inside the span, is \<open>h\<close> itself when \<open>h\<close> was not strictly inside, is \<open>0\<close> or not before
  \<open>h\<close>, is reached from \<open>h\<close> by passing whole records, and lies on whole records.
\<close>

definition pushed :: "nat list \<Rightarrow> nat \<Rightarrow> nat \<Rightarrow> nat \<Rightarrow> nat \<Rightarrow> nat \<Rightarrow> bool" where
  "pushed vs sz t cap h h' \<longleftrightarrow>
     \<not> (t < h' \<and> h' < t + cap) \<and> (\<not> (t < h \<and> h < t + cap) \<longrightarrow> h' = h) \<and>
     (h' = 0 \<or> h \<le> h') \<and> passes vs sz h h' \<and>
     (h' \<le> t \<and> chain vs t h' \<or> t + cap \<le> h' \<and> wraps vs sz h')"

text \<open>
  Concrete pools for the examples: after \<open>reserve(2, 10)\<close> and a record of payload length 6
  written by owner 0; after a second record, of payload length 2; after consumer 1 has read
  once; and, instead, after consumer 0 has read once.
\<close>

definition pool_c1 :: vector_pool where
  "pool_c1 = \<lparr>m_vectors = [0, 6, 11, 12, 13, 14, 15, 16, 0, 0, 0, 0, 0, 0, 0, 0, 0, 0],
     m_size = 10, m_tail = 8, m_heads = [0, 0], m_at_end = [False, False]\<rparr>"

definition pool_c2 :: vector_pool where
  "pool_c2 = \<lparr>m_vectors = [0, 6, 11, 12, 13, 14, 15, 16, 0, 2, 21, 22, 0, 0, 0, 0, 0, 0],
     m_size = 10, m_tail = 0, m_heads = [0, 0], m_at_end = [False, False]\<rparr>"

definition pool_c3 :: vector_pool where
  "pool_c3 = \<lparr>m_vectors = [0, 6, 11, 12, 13, 14, 15, 16, 0, 2, 21, 22, 0, 0, 0, 0, 0, 0],
     m_size = 10, m_tail = 0, m_heads = [0, 8], m_at_end = [False, False]\<rparr>"

definition pool_c4 :: vector_pool where
  "pool_c4 = \<lparr>m_vectors = [0, 6, 11, 12, 13, 14, 15, 16, 0, 2, 21, 22, 0, 0, 0, 0, 0, 0],
     m_size = 10, m_tail = 0, m_heads = [0, 0], m_at_end = [True, False]\<rparr>"

text \<open>
  Concrete pools for a second example: after \<open>reserve(2, 10)\<close> and two records of payload
  length 2 written by owner 0; after consumer 1 has read the first of them; after a record of
  payload length 4 has sent the write cursor back to \<open>0\<close>; and after
  \<open>begin_add_vector(0, 3)\<close>.
\<close>

definition pool_d1 :: vector_pool where
  "pool_d1 = \<lparr>m_vectors = [0, 2, 1, 2, 0, 0, 0, 0, 0, 0, 0, 0, 0, 0],
     m_size = 10, m_tail = 4, m_heads = [0, 0], m_at_end = [False, False]\<rparr>"

definition pool_d2 :: vector_pool where
  "pool_d2 = \<lparr>m_vectors = [0, 2, 1, 2, 0, 2, 3, 4, 0, 0, 0, 0, 0, 0],
     m_size = 10, m_tail = 8, m_heads = [0, 0], m_at_end = [False, False]\<rparr>"

definition pool_d3 :: vector_pool where
  "pool_d3 = \<lparr>m_vectors = [0, 2, 1, 2, 0, 2, 3, 4, 0, 0, 0, 0, 0, 0],
     m_size = 10, m_tail = 8, m_heads = [0, 4], m_at_end = [False, False]\<rparr>"

definition pool_d4 :: vector_pool where
  "pool_d4 = \<lparr>m_vectors = [0, 2, 1, 2, 0, 2, 3, 4, 0, 4, 5, 6, 7, 8, 0, 0],
     m_size = 10, m_tail = 0, m_heads = [0, 4], m_at_end = [False, False]\<rparr>"

definition pool_d5 :: vector_pool where
  "pool_d5 = \<lparr>m_vectors = [0, 3, 1, 2, 0, 2, 3, 4, 0, 4, 5, 6, 7, 8, 0, 0],
     m_size = 10, m_tail = 2, m_heads = [0, 8], m_at_end = [False, False]\<rparr>"

section \<open>Properties of the share heuristic\<close>

text \<open>
  C7: the share heuristic accepts a clause exactly when its size is at most 40 and its glue at
  most 8, or its glue is at most 2; it accepts (40, 8) and (1000, 2) and rejects (41, 8) and
  (41, 3).
\<close>

theorem enable_add_accepts:
  "enable_add c = ((clause_size c \<le> 40 \<and> clause_glue c \<le> 8) \<or> clause_glue c \<le> 2)
   \<and> enable_add \<lparr>clause_size = 40, clause_glue = 8\<rparr>
   \<and> \<not> enable_add \<lparr>clause_size = 41, clause_glue = 8\<rparr>
   \<and> enable_add \<lparr>clause_size = 1000, clause_glue = 2\<rparr>
   \<and> \<not> enable_add \<lparr>clause_size = 41, clause_glue = 3\<rparr>"
  by (simp add: enable_add_def)

section \<open>Cloning the master\<close>

lemma loop_length:
  "init_solvers_loop gen nt js (s, solvers) = (s', solvers') \<Longrightarrow> length solvers' = length solvers"
  by (induction js arbitrary: s solvers) (auto simp: Let_def split: prod.splits if_splits)

lemma loop_untouched:
  "init_solvers_loop gen nt js (s, solvers) = (s', solvers') \<Longrightarrow> i \<notin> set js \<Longrightarrow>
   solvers' ! i = solvers ! i"
  by (induction js arbitrary: s solvers) (auto simp: Let_def split: prod.splits if_splits)

lemma loop_append:
  "init_solvers_loop gen nt (js @ ks) st = init_solvers_loop gen nt ks (init_solvers_loop gen nt js st)"
proof (induction js arbitrary: st)
  case Nil
  show ?case by (cases st) simp
next
  case (Cons j js)
  show ?case by (cases st) (simp add: Cons.IH Let_def split: prod.splits)
qed

lemma loop_ids:
  "init_solvers_loop gen nt js (s, solvers) = (s', solvers') \<Longrightarrow> distinct js \<Longrightarrow>
   \<forall>j\<in>set js. j < length solvers \<Longrightarrow> i \<in> set js \<Longrightarrow>
   \<exists>c. solvers' ! i = Some c \<and> m_par_id c = i \<and> \<not> m_par_syncing_clauses c"
proof (induction js arbitrary: s solvers)
  case Nil
  then show ?case by simp
next
  case (Cons j js)
  obtain seed g where g: "gen (m_rand s) = (seed, g)" by (cases "gen (m_rand s)")
  define s1 where "s1 = s\<lparr>m_rand := g, m_params := set_uint (m_params s) ''random_seed'' seed\<rparr>"
  define s2 where "s2 = (if j = u32 (1 + nt div 2)
                then s1\<lparr>m_params := set_sym (m_params s1) ''phase'' ''random''\<rparr> else s1)"
  define sv where "sv = solvers[j := Some (set_par (new_solver (m_params s2) seed) j)]"
  have run: "init_solvers_loop gen nt js (s2, sv) = (s', solvers')"
    using Cons.prems(1) g by (auto simp: s1_def s2_def sv_def Let_def)
  show ?case
  proof (cases "i = j")
    case True
    then have "i \<notin> set js" using Cons.prems(2) by simp
    from loop_untouched[OF run this] have "solvers' ! i = sv ! i" .
    then show ?thesis using True Cons.prems(3) by (simp add: sv_def set_par_def new_solver_def)
  next
    case False
    then have "i \<in> set js" using Cons.prems(4) by simp
    moreover have "distinct js" using Cons.prems(2) by simp
    moreover have "\<forall>j\<in>set js. j < length sv" using Cons.prems(3) by (simp add: sv_def)
    ultimately show ?thesis using Cons.IH[OF run] by blast
  qed
qed

lemma get_sym_set_uint: "k \<noteq> k' \<Longrightarrow> get_sym (set_uint ps k' v) k d = get_sym ps k d"
  by (simp add: get_sym_def set_uint_def)

lemma get_sym_set_sym: "get_sym (set_sym ps k v) k d = v"
  by (simp add: get_sym_def set_sym_def)

lemma loop_phase_kept:
  "init_solvers_loop gen nt js (s, solvers) = (s', solvers') \<Longrightarrow> u32 (1 + nt div 2) \<notin> set js \<Longrightarrow>
   distinct js \<Longrightarrow> \<forall>j\<in>set js. j < length solvers \<Longrightarrow>
   phase_of s' = phase_of s \<and> (\<forall>i\<in>set js. \<exists>c. solvers' ! i = Some c \<and> phase_of c = phase_of s)"
proof (induction js arbitrary: s solvers)
  case Nil
  then show ?case by simp
next
  case (Cons j js)
  obtain seed g where g: "gen (m_rand s) = (seed, g)" by (cases "gen (m_rand s)")
  define s1 where "s1 = s\<lparr>m_rand := g, m_params := set_uint (m_params s) ''random_seed'' seed\<rparr>"
  define sv where "sv = solvers[j := Some (set_par (new_solver (m_params s1) seed) j)]"
  have nj: "j \<noteq> u32 (1 + nt div 2)" using Cons.prems(2) by auto
  have run: "init_solvers_loop gen nt js (s1, sv) = (s', solvers')"
    using Cons.prems(1) g nj by (simp add: s1_def sv_def Let_def)
  have ph1: "phase_of s1 = phase_of s"
    by (simp add: s1_def phase_of_def get_sym_set_uint)
  have ih: "phase_of s' = phase_of s1 \<and> (\<forall>i\<in>set js. \<exists>c. solvers' ! i = Some c \<and> phase_of c = phase_of s1)"
    using Cons.IH[OF run] Cons.prems(2,3,4) by (simp add: sv_def)
  have "j \<notin> set js" using Cons.prems(3) by simp
  from loop_untouched[OF run this] have "solvers' ! j = sv ! j" .
  then have "\<exists>c. solvers' ! j = Some c \<and> phase_of c = phase_of s"
    using Cons.prems(4) ph1 by (simp add: sv_def set_par_def new_solver_def phase_of_def)
  then show ?case using ih ph1 by auto
qed

lemma loop_phase_random:
  "init_solvers_loop gen nt js (s, solvers) = (s', solvers') \<Longrightarrow> phase_of s = ''random'' \<Longrightarrow>
   distinct js \<Longrightarrow> \<forall>j\<in>set js. j < length solvers \<Longrightarrow>
   phase_of s' = ''random'' \<and> (\<forall>i\<in>set js. \<exists>c. solvers' ! i = Some c \<and> phase_of c = ''random'')"
proof (induction js arbitrary: s solvers)
  case Nil
  then show ?case by simp
next
  case (Cons j js)
  obtain seed g where g: "gen (m_rand s) = (seed, g)" by (cases "gen (m_rand s)")
  define s1 where "s1 = s\<lparr>m_rand := g, m_params := set_uint (m_params s) ''random_seed'' seed\<rparr>"
  define s2 where "s2 = (if j = u32 (1 + nt div 2)
                then s1\<lparr>m_params := set_sym (m_params s1) ''phase'' ''random''\<rparr> else s1)"
  define sv where "sv = solvers[j := Some (set_par (new_solver (m_params s2) seed) j)]"
  have run: "init_solvers_loop gen nt js (s2, sv) = (s', solvers')"
    using Cons.prems(1) g by (auto simp: s1_def s2_def sv_def Let_def)
  have ph1: "phase_of s1 = ''random''"
    using Cons.prems(2) by (simp add: s1_def phase_of_def get_sym_set_uint)
  have ph2: "phase_of s2 = ''random''"
    using ph1 by (simp add: s2_def phase_of_def get_sym_set_sym)
  have ih: "phase_of s' = ''random'' \<and> (\<forall>i\<in>set js. \<exists>c. solvers' ! i = Some c \<and> phase_of c = ''random'')"
    using Cons.IH[OF run ph2] Cons.prems(3,4) by (simp add: sv_def)
  have "j \<notin> set js" using Cons.prems(3) by simp
  from loop_untouched[OF run this] have "solvers' ! j = sv ! j" .
  then have "\<exists>c. solvers' ! j = Some c \<and> phase_of c = ''random''"
    using Cons.prems(4) ph2 by (simp add: sv_def set_par_def new_solver_def phase_of_def)
  then show ?case using ih by auto
qed

lemma loop_phase_switch:
  assumes run: "init_solvers_loop gen nt (j # js) (s, solvers) = (s', solvers')"
    and j: "j = u32 (1 + nt div 2)" and d: "distinct (j # js)"
    and l: "\<forall>i\<in>set (j # js). i < length solvers"
  shows "\<forall>i\<in>set (j # js). \<exists>c. solvers' ! i = Some c \<and> phase_of c = ''random''"
proof -
  obtain seed g where g: "gen (m_rand s) = (seed, g)" by (cases "gen (m_rand s)")
  define s1 where "s1 = s\<lparr>m_rand := g, m_params := set_uint (m_params s) ''random_seed'' seed\<rparr>"
  define s2 where "s2 = s1\<lparr>m_params := set_sym (m_params s1) ''phase'' ''random''\<rparr>"
  define sv where "sv = solvers[j := Some (set_par (new_solver (m_params s2) seed) j)]"
  have run': "init_solvers_loop gen nt js (s2, sv) = (s', solvers')"
    using run g j by (simp add: s1_def s2_def sv_def Let_def)
  have ph2: "phase_of s2 = ''random''" by (simp add: s2_def phase_of_def get_sym_set_sym)
  have later: "\<forall>i\<in>set js. \<exists>c. solvers' ! i = Some c \<and> phase_of c = ''random''"
    using loop_phase_random[OF run' ph2] d l by (simp add: sv_def)
  have "j \<notin> set js" using d by simp
  from loop_untouched[OF run' this] have "solvers' ! j = sv ! j" .
  then have "\<exists>c. solvers' ! j = Some c \<and> phase_of c = ''random''" using l
    by (simp add: sv_def s2_def set_par_def new_solver_def phase_of_def get_sym_set_sym)
  with later show ?thesis by simp
qed

lemma init_solvers_clones_aux:
  assumes "init_solvers gen k s par = (s', par')"
  shows "length (m_solvers par') = k \<and> m_par_id s' = k \<and>
    (\<forall>i<k. \<exists>c. m_solvers par' ! i = Some c \<and> m_par_id c = i \<and>
       (i < switch_index k \<longrightarrow> phase_of c = phase_of s) \<and>
       (switch_index k \<le> i \<longrightarrow> phase_of c = ''random''))"
proof -
  define nt where "nt = u32 (k + 1)"
  define sv0 where "sv0 = vec_resize (m_solvers par) k (None :: solver option)"
  define idx where "idx = switch_index k"
  obtain s1 sv1 where run: "init_solvers_loop gen nt [0..<k] (s, sv0) = (s1, sv1)"
    by (cases "init_solvers_loop gen nt [0..<k] (s, sv0)")
  have len0: "length sv0 = k" by (simp add: sv0_def vec_resize_def)
  have par': "m_solvers par' = sv1" and s': "m_par_id s' = k"
    using assms run by (auto simp: init_solvers_def Let_def nt_def sv0_def set_par_def)
  have len1: "length sv1 = k" using loop_length[OF run] len0 by simp
  have idx: "idx = u32 (1 + nt div 2)" by (simp add: idx_def switch_index_def nt_def)
  have ids: "\<exists>c. sv1 ! i = Some c \<and> m_par_id c = i" if "i < k" for i
    using loop_ids[OF run, of i] that len0 by auto
  define m where "m = min idx k"
  have split: "[0..<k] = [0..<m] @ [m..<k]"
    by (metis m_def min.cobounded2 upt_add_eq_append le0 le_add_diff_inverse)
  obtain sa sva where runa: "init_solvers_loop gen nt [0..<m] (s, sv0) = (sa, sva)"
    by (cases "init_solvers_loop gen nt [0..<m] (s, sv0)")
  have runb: "init_solvers_loop gen nt [m..<k] (sa, sva) = (s1, sv1)"
    using run runa by (simp add: split loop_append)
  have lena: "length sva = k" using loop_length[OF runa] len0 by simp
  have before: "\<exists>c. sv1 ! i = Some c \<and> phase_of c = phase_of s" if "i < k" "i < idx" for i
  proof -
    have im: "i < m" using that by (simp add: m_def)
    have "u32 (1 + nt div 2) \<notin> set [0..<m]" using idx by (simp add: m_def)
    from loop_phase_kept[OF runa this] len0 im
    have "\<exists>c. sva ! i = Some c \<and> phase_of c = phase_of s" by (auto simp: m_def)
    moreover have "sv1 ! i = sva ! i" using loop_untouched[OF runb, of i] im by simp
    ultimately show ?thesis by simp
  qed
  have at: "\<exists>c. sv1 ! i = Some c \<and> phase_of c = ''random''" if "i < k" "idx \<le> i" for i
  proof -
    have m: "m = idx" and ik: "idx < k" using that by (simp_all add: m_def)
    have "[m..<k] = idx # [Suc idx..<k]" using ik m by (simp add: upt_conv_Cons)
    with runb have r: "init_solvers_loop gen nt (idx # [Suc idx..<k]) (sa, sva) = (s1, sv1)" by simp
    have d: "distinct (idx # [Suc idx..<k])" by simp
    have l: "\<forall>j\<in>set (idx # [Suc idx..<k]). j < length sva" using ik lena by auto
    have "i \<in> set (idx # [Suc idx..<k])" using that by auto
    with loop_phase_switch[OF r idx d l] show ?thesis by blast
  qed
  have "\<exists>c. sv1 ! i = Some c \<and> m_par_id c = i \<and>
       (i < idx \<longrightarrow> phase_of c = phase_of s) \<and> (idx \<le> i \<longrightarrow> phase_of c = ''random'')"
    if ik: "i < k" for i
  proof -
    obtain c where c: "sv1 ! i = Some c" "m_par_id c = i" using ids[OF ik] by blast
    have "phase_of c = phase_of s" if "i < idx" using before[OF ik that] c by simp
    moreover have "phase_of c = ''random''" if "idx \<le> i" using at[OF ik that] c by simp
    ultimately show ?thesis using c by blast
  qed
  then show ?thesis using len1 par' s' by (simp add: idx_def)
qed

lemma loop_other_params:
  "init_solvers_loop gen nt js (s, solvers) = (s', solvers') \<Longrightarrow>
   key \<noteq> ''phase'' \<Longrightarrow> key \<noteq> ''random_seed'' \<Longrightarrow> m_params s' key = m_params s key"
  by (induction js arbitrary: s solvers)
     (auto simp: Let_def set_uint_def set_sym_def split: prod.splits if_splits)

lemma loop_seed:
  "init_solvers_loop gen nt js (s, solvers) = (s', solvers') \<Longrightarrow> js \<noteq> [] \<Longrightarrow>
   m_params s' ''random_seed'' = Some (P_uint (fst (gen (rand_state gen (length js - 1) (m_rand s)))))
   \<and> m_rand s' = rand_state gen (length js) (m_rand s)"
proof (induction js arbitrary: s solvers)
  case Nil
  then show ?case by simp
next
  case (Cons j js)
  obtain seed g where g: "gen (m_rand s) = (seed, g)" by (cases "gen (m_rand s)")
  define s1 where "s1 = s\<lparr>m_rand := g, m_params := set_uint (m_params s) ''random_seed'' seed\<rparr>"
  define s2 where "s2 = (if j = u32 (1 + nt div 2)
                then s1\<lparr>m_params := set_sym (m_params s1) ''phase'' ''random''\<rparr> else s1)"
  define sv where "sv = solvers[j := Some (set_par (new_solver (m_params s2) seed) j)]"
  have run: "init_solvers_loop gen nt js (s2, sv) = (s', solvers')"
    using Cons.prems(1) g by (auto simp: s1_def s2_def sv_def Let_def)
  have s2: "m_rand s2 = g" "m_params s2 ''random_seed'' = Some (P_uint seed)"
    by (simp_all add: s2_def s1_def set_uint_def set_sym_def)
  show ?case
  proof (cases js)
    case Nil
    with run s2 g show ?thesis by simp
  next
    case (Cons a as)
    then have ne: "js \<noteq> []" by simp
    from Cons.IH[OF run ne] show ?thesis
      using s2(1) g Cons by simp
  qed
qed

lemma init_solvers_master:
  assumes "init_solvers gen k s par = (s', par')"
  shows "phase_of s' = phase_of s"
    and "key \<noteq> ''phase'' \<Longrightarrow> key \<noteq> ''random_seed'' \<Longrightarrow> m_params s' key = m_params s key"
    and "0 < k \<Longrightarrow> m_params s' ''random_seed'' =
           Some (P_uint (fst (gen (rand_state gen (k - 1) (m_rand s)))))"
proof -
  define nt where "nt = u32 (k + 1)"
  define sv0 where "sv0 = vec_resize (m_solvers par) k (None :: solver option)"
  obtain s1 sv1 where run: "init_solvers_loop gen nt [0..<k] (s, sv0) = (s1, sv1)"
    by (cases "init_solvers_loop gen nt [0..<k] (s, sv0)")
  have s': "s' = (set_par s1 k)\<lparr>m_params := set_sym (m_params (set_par s1 k)) ''phase''
                 (get_sym (m_params s) ''phase'' ''caching'')\<rparr>"
    using assms run by (auto simp: init_solvers_def Let_def nt_def sv0_def)
  show "phase_of s' = phase_of s"
    by (simp add: s' phase_of_def get_sym_set_sym)
  show "m_params s' key = m_params s key" if "key \<noteq> ''phase''" "key \<noteq> ''random_seed''"
    using loop_other_params[OF run that] that by (simp add: s' set_par_def set_sym_def)
  show "m_params s' ''random_seed'' =
           Some (P_uint (fst (gen (rand_state gen (k - 1) (m_rand s)))))" if "0 < k"
  proof -
    have "[0..<k] \<noteq> []" using that by simp
    from loop_seed[OF run this] show ?thesis by (simp add: s' set_par_def set_sym_def)
  qed
qed

text \<open>
  C9 (amended): when \<open>init_solvers\<close> returns, the master's phase option gives the policy it
  gave before the call and every option other than the phase and the random seed is untouched;
  the random-seed option is not restored: for \<open>k > 0\<close> it holds the seed drawn for the last
  clone.
\<close>

theorem init_solvers_master_config:
  assumes "init_solvers gen k s par = (s', par')"
  shows "phase_of s' = phase_of s \<and>
    (\<forall>key. key \<noteq> ''phase'' \<and> key \<noteq> ''random_seed'' \<longrightarrow> m_params s' key = m_params s key) \<and>
    (0 < k \<longrightarrow> m_params s' ''random_seed'' =
           Some (P_uint (fst (gen (rand_state gen (k - 1) (m_rand s))))))"
  using init_solvers_master[OF assms] by blast

lemma counter_gen_pow: "rand_state counter_gen n g = g + n"
  by (induction n arbitrary: g) (simp_all add: counter_gen_def)

text \<open>
  The theorem at \<open>k = 3\<close> with a generator that starts at 7: the phase is \<open>caching\<close>
  as before, the seed option holds the third draw, 9.
\<close>

theorem init_solvers_master_config_witness:
  "phase_of (fst (init_solvers counter_gen 3 master0 parallel0)) = ''caching'' \<and>
   m_params (fst (init_solvers counter_gen 3 master0 parallel0)) ''random_seed'' = Some (P_uint 9)"
  using init_solvers_master_config[of counter_gen 3 master0 parallel0
      "fst (init_solvers counter_gen 3 master0 parallel0)"
      "snd (init_solvers counter_gen 3 master0 parallel0)"]
  by (simp add: counter_gen_pow) (simp add: counter_gen_def master0_def phase_of_def get_sym_def)

text \<open>
  C9 as stated fails at \<open>k = 1\<close>: the master's random-seed option is 0 before the call and
  7, the seed drawn for the clone, after it.
\<close>

theorem init_solvers_seed_counterexample:
  "m_params master0 ''random_seed'' = Some (P_uint 0) \<and>
   m_params (fst (init_solvers counter_gen 1 master0 parallel0)) ''random_seed'' = Some (P_uint 7)"
  using init_solvers_master(3)[of counter_gen 1 master0 parallel0
      "fst (init_solvers counter_gen 1 master0 parallel0)"
      "snd (init_solvers counter_gen 1 master0 parallel0)"]
  by (simp add: counter_gen_def master0_def)

text \<open>
  C8 (amended): \<open>init_solvers\<close> with \<open>k\<close> extra solvers fills exactly \<open>k\<close> clones
  with the ids \<open>0\<close> to \<open>k - 1\<close> and gives the master the id \<open>k\<close>. The phase option is
  switched at the loop index \<open>1 + (k + 1) div 2\<close> (\<open>switch_index k\<close>) and stays switched
  for the rest of the loop: every clone before that index has the master's phase policy, and
  every clone from that index on, if there is one, has the policy \<open>random\<close>.
\<close>

theorem init_solvers_clones:
  assumes "init_solvers gen k s par = (s', par')"
  shows "length (m_solvers par') = k \<and> m_par_id s' = k \<and>
    (\<forall>i<k. \<exists>c. m_solvers par' ! i = Some c \<and> m_par_id c = i \<and>
       (i < switch_index k \<longrightarrow> phase_of c = phase_of s) \<and>
       (switch_index k \<le> i \<longrightarrow> phase_of c = ''random''))"
  using init_solvers_clones_aux[OF assms] .

text \<open>
  The theorem at \<open>k = 6\<close>: six clones, the master has id 6, the clones 0 to 3 keep the
  master's policy \<open>caching\<close>, and the clones 4 and 5 have the policy \<open>random\<close>.
\<close>

theorem init_solvers_clones_witness:
  "length (m_solvers (snd (init_solvers counter_gen 6 master0 parallel0))) = 6 \<and>
   m_par_id (fst (init_solvers counter_gen 6 master0 parallel0)) = 6 \<and>
   map_option m_par_id (m_solvers (snd (init_solvers counter_gen 6 master0 parallel0)) ! 2) = Some 2 \<and>
   map_option phase_of (m_solvers (snd (init_solvers counter_gen 6 master0 parallel0)) ! 0)
     = Some ''caching'' \<and>
   map_option phase_of (m_solvers (snd (init_solvers counter_gen 6 master0 parallel0)) ! 1)
     = Some ''caching'' \<and>
   map_option phase_of (m_solvers (snd (init_solvers counter_gen 6 master0 parallel0)) ! 2)
     = Some ''caching'' \<and>
   map_option phase_of (m_solvers (snd (init_solvers counter_gen 6 master0 parallel0)) ! 3)
     = Some ''caching'' \<and>
   map_option phase_of (m_solvers (snd (init_solvers counter_gen 6 master0 parallel0)) ! 4)
     = Some ''random'' \<and>
   map_option phase_of (m_solvers (snd (init_solvers counter_gen 6 master0 parallel0)) ! 5)
     = Some ''random''"
proof -
  have sw: "switch_index 6 = 4" by (simp add: switch_index_def u32_def)
  have ph: "phase_of master0 = ''caching''" by (simp add: phase_of_def get_sym_def master0_def)
  have run: "init_solvers counter_gen 6 master0 parallel0 =
    (fst (init_solvers counter_gen 6 master0 parallel0),
     snd (init_solvers counter_gen 6 master0 parallel0))" by simp
  note t = init_solvers_clones[OF run]
  note each = t[THEN conjunct2, THEN conjunct2, rule_format]
  from each[of 0] each[of 1] each[of 2] each[of 3] each[of 4] each[of 5] t sw ph
  show ?thesis by auto
qed

text \<open>
  C8 as stated fails in both of its parts, for a master with the policy \<open>caching\<close>. At
  \<open>k = 5\<close> the clone with index \<open>1 + 5 div 2 = 3\<close> has the master's policy and the switch
  happens at clone 4. At \<open>k = 6\<close> the clone with index \<open>1 + 6 div 2 = 4\<close> is \<open>random\<close>, and
  so is clone 5, which is another clone and does not copy the master's policy.
\<close>

theorem init_solvers_index_counterexample:
  "phase_of master0 = ''caching'' \<and>
   map_option phase_of (m_solvers (snd (init_solvers counter_gen 5 master0 parallel0)) ! (1 + 5 div 2))
     = Some ''caching'' \<and>
   map_option phase_of (m_solvers (snd (init_solvers counter_gen 5 master0 parallel0)) ! 4)
     = Some ''random'' \<and>
   map_option phase_of (m_solvers (snd (init_solvers counter_gen 6 master0 parallel0)) ! (1 + 6 div 2))
     = Some ''random'' \<and>
   map_option phase_of (m_solvers (snd (init_solvers counter_gen 6 master0 parallel0)) ! 5)
     = Some ''random''"
proof -
  have sw: "switch_index 5 = 4" "switch_index 6 = 4" by (simp_all add: switch_index_def u32_def)
  have ph: "phase_of master0 = ''caching''" by (simp add: phase_of_def get_sym_def master0_def)
  have run5: "init_solvers counter_gen 5 master0 parallel0 =
    (fst (init_solvers counter_gen 5 master0 parallel0),
     snd (init_solvers counter_gen 5 master0 parallel0))" by simp
  have run6: "init_solvers counter_gen 6 master0 parallel0 =
    (fst (init_solvers counter_gen 6 master0 parallel0),
     snd (init_solvers counter_gen 6 master0 parallel0))" by simp
  note five = init_solvers_clones_aux[OF run5, THEN conjunct2, THEN conjunct2, rule_format]
  note six = init_solvers_clones_aux[OF run6, THEN conjunct2, THEN conjunct2, rule_format]
  have i3: "(1::nat) + 5 div 2 = 3" and i4: "(1::nat) + 6 div 2 = 4" by simp_all
  from five[of 3] five[of 4] six[of 4] six[of 5] sw ph show ?thesis unfolding i3 i4 by auto
qed

section \<open>Exchange of unit literals\<close>

lemma add_units_props:
  "S = index ` set us \<Longrightarrow> distinct (map index us) \<Longrightarrow> add_units inp (S, us) = (S', us') \<Longrightarrow>
   S' = index ` set us' \<and> distinct (map index us') \<and>
   (\<exists>new. us' = us @ new \<and> set new \<subseteq> set inp) \<and>
   index ` set us' = index ` set us \<union> index ` set inp"
proof (induction inp arbitrary: S us)
  case Nil
  then show ?case by auto
next
  case (Cons lit lits)
  show ?case
  proof (cases "index lit \<in> S")
    case True
    with Cons.prems have "add_units lits (S, us) = (S', us')" by simp
    from Cons.IH[OF Cons.prems(1,2) this] True Cons.prems(1) show ?thesis by auto
  next
    case False
    with Cons.prems have a: "add_units lits (insert (index lit) S, us @ [lit]) = (S', us')" by simp
    have b: "insert (index lit) S = index ` set (us @ [lit])" using Cons.prems(1) by auto
    have c: "distinct (map index (us @ [lit]))" using Cons.prems(1,2) False by auto
    from Cons.IH[OF b c a] show ?thesis by auto
  qed
qed

lemma exchange_open:
  assumes sync: "\<not> m_par_syncing_clauses s" and inv: "units_inv par"
    and ex: "exchange s inp limit out par = (limit', out', par')"
  shows "out' = out @ drop limit (m_units par)"
    and "\<exists>new. m_units par' = m_units par @ new \<and> set new \<subseteq> set inp"
    and "index ` set (m_units par') = index ` set (m_units par) \<union> index ` set inp"
    and "distinct (map index (m_units par'))"
    and "limit' = length (m_units par')"
    and "units_inv par'"
    and "m_pool par' = m_pool par \<and> m_solvers par' = m_solvers par"
proof -
  obtain S' us' where au: "add_units inp (m_unit_set par, m_units par) = (S', us')"
    by (cases "add_units inp (m_unit_set par, m_units par)")
  from inv have a: "m_unit_set par = index ` set (m_units par)" and b: "distinct (map index (m_units par))"
    by (simp_all add: units_inv_def)
  note p = add_units_props[OF a b au]
  have par': "par' = par\<lparr>m_unit_set := S', m_units := us'\<rparr>" and lim: "limit' = length us'"
    and out: "out' = (if limit < length (m_units par)
                    then out @ take (length (m_units par) - limit) (drop limit (m_units par))
                    else out)"
    using ex sync au by (auto simp: exchange_def Let_def)
  show "out' = out @ drop limit (m_units par)" using out by simp
  show "\<exists>new. m_units par' = m_units par @ new \<and> set new \<subseteq> set inp" using p par' by simp
  show "index ` set (m_units par') = index ` set (m_units par) \<union> index ` set inp" using p par' by simp
  show "distinct (map index (m_units par'))" using p par' by simp
  show "limit' = length (m_units par')" using lim par' by simp
  show "units_inv par'" using p par' by (simp add: units_inv_def)
  show "m_pool par' = m_pool par \<and> m_solvers par' = m_solvers par" using par' by simp
qed

lemma exchange_scenario_b:
  assumes "index u1 \<noteq> index u2" "m_units par = []" "m_unit_set par = {}"
    "\<not> m_par_syncing_clauses s" "\<not> m_par_syncing_clauses s2"
    and ex: "exchange s [u1, u2] limit out par = (limit', out', par')"
  shows "out' = out \<and> limit' = 2 \<and> exchange s2 [] 0 [] par' = (2, [u1, u2], par')"
  using assms by (auto simp: exchange_def Let_def)

text \<open>
  C6 (amended): a call of \<open>exchange\<close> whose caller is not already syncing appends to
  \<open>out\<close> exactly the logged literals from position \<open>limit\<close> on, in log order; then
  appends to the log literals of \<open>in\<close> so that the logged indices are the old ones together
  with those of \<open>in\<close> and no index is logged twice; and sets \<open>limit\<close> to the new length
  of the log. From an empty log, \<open>in = [u1, u2]\<close> with two different literals leaves
  \<open>out\<close> as it was and sets \<open>limit\<close> to 2, and a following call with an empty \<open>in\<close>
  and \<open>limit = 0\<close> returns \<open>[u1, u2]\<close>.
\<close>

theorem exchange_drains_then_records:
  assumes "\<not> m_par_syncing_clauses s" and "units_inv par"
    and "exchange s inp limit out par = (limit', out', par')"
  shows "out' = out @ drop limit (m_units par) \<and>
    (\<exists>new. m_units par' = m_units par @ new \<and> set new \<subseteq> set inp) \<and>
    index ` set (m_units par') = index ` set (m_units par) \<union> index ` set inp \<and>
    distinct (map index (m_units par')) \<and>
    limit' = length (m_units par') \<and>
    units_inv par' \<and>
    (m_units par = [] \<and> inp = [u1, u2] \<and> index u1 \<noteq> index u2 \<and> \<not> m_par_syncing_clauses s2 \<longrightarrow>
       out' = out \<and> limit' = 2 \<and> exchange s2 [] 0 [] par' = (2, [u1, u2], par'))"
proof -
  have "out' = out \<and> limit' = 2 \<and> exchange s2 [] 0 [] par' = (2, [u1, u2], par')"
    if "m_units par = []" "inp = [u1, u2]" "index u1 \<noteq> index u2" "\<not> m_par_syncing_clauses s2"
  proof -
    have "m_unit_set par = {}" using assms(2) that(1) by (simp add: units_inv_def)
    with exchange_scenario_b[OF that(3,1) this assms(1) that(4)] assms(3) that(2) show ?thesis by simp
  qed
  with exchange_open[OF assms] show ?thesis by blast
qed

text \<open>
  The theorem on the empty log with the literals 3 and 5.
\<close>

theorem exchange_drains_then_records_witness:
  "units_inv parallel0 \<and>
   exchange (solver0 0 False) [to_literal 3, to_literal 5] 0 [] parallel0
     = (2, [], parallel0\<lparr>m_unit_set := {5, 3}, m_units := [to_literal 3, to_literal 5]\<rparr>) \<and>
   exchange (solver0 1 False) [] 0 []
       (parallel0\<lparr>m_unit_set := {5, 3}, m_units := [to_literal 3, to_literal 5]\<rparr>)
     = (2, [to_literal 3, to_literal 5],
        parallel0\<lparr>m_unit_set := {5, 3}, m_units := [to_literal 3, to_literal 5]\<rparr>)"
proof -
  have inv: "units_inv parallel0" by (simp add: units_inv_def parallel0_def)
  have sync: "\<not> m_par_syncing_clauses (solver0 0 False)" by (simp add: solver0_def)
  have ex: "exchange (solver0 0 False) [to_literal 3, to_literal 5] 0 [] parallel0
     = (2, [], parallel0\<lparr>m_unit_set := {5, 3}, m_units := [to_literal 3, to_literal 5]\<rparr>)"
    by (simp add: exchange_def solver0_def parallel0_def)
  from exchange_drains_then_records[OF sync inv ex, of "to_literal 3" "to_literal 5" "solver0 1 False"]
  show ?thesis using inv ex by (simp add: parallel0_def solver0_def)
qed

text \<open>
  C6 as stated fails for a caller that is already syncing: with the literal 3 logged and
  \<open>limit = 0\<close>, the call leaves \<open>out\<close> empty, \<open>limit\<close> at 0 and the log as it
  was, although the log holds a literal at a position from \<open>limit\<close> on and \<open>in\<close> holds a
  new literal.
\<close>

theorem exchange_guard_counterexample:
  "exchange (solver0 0 True) [to_literal 5] 0 []
      (parallel0\<lparr>m_unit_set := {3}, m_units := [to_literal 3]\<rparr>)
     = (0, [], parallel0\<lparr>m_unit_set := {3}, m_units := [to_literal 3]\<rparr>)"
  by (simp add: exchange_def solver0_def)

section \<open>Chains of records\<close>

lemma u32_id: "x < 4294967296 \<Longrightarrow> u32 x = x"
  by (simp add: u32_def)

lemma chain_le: "chain vs t h \<Longrightarrow> h \<le> t"
  by (induction rule: chain.induct) (auto simp: record_end_def)

lemma wraps_lt: "wraps vs sz h \<Longrightarrow> h < sz"
  by (induction rule: wraps.induct) (auto simp: record_end_def)

lemma chain_trans: "chain vs m h \<Longrightarrow> chain vs t m \<Longrightarrow> chain vs t h"
proof (induction rule: chain.induct)
  case chain_refl
  then show ?case .
next
  case (chain_step h)
  from chain_step.prems have "m \<le> t" by (rule chain_le)
  with chain_step show ?case by (auto intro: chain.chain_step)
qed

lemma chain_wraps: "chain vs t h \<Longrightarrow> wraps vs sz t \<Longrightarrow> wraps vs sz h"
proof (induction rule: chain.induct)
  case chain_refl
  then show ?case .
next
  case (chain_step h)
  from chain_step.prems have "t < sz" by (rule wraps_lt)
  with chain_step show ?case by (auto intro: wraps_step)
qed

text \<open>Writes at or after the write cursor leave the records before it alone.\<close>

lemma chain_frame:
  "chain vs t h \<Longrightarrow> \<forall>j<t. vs' ! j = vs ! j \<Longrightarrow> chain vs' t h"
proof (induction rule: chain.induct)
  case chain_refl
  show ?case by (rule chain.chain_refl)
next
  case (chain_step h)
  have "h + 1 < t" using chain_step.hyps(1) by (simp add: record_end_def)
  then have "record_end vs' h = record_end vs h" using chain_step.prems by (simp add: record_end_def)
  with chain_step show ?case by (auto intro: chain.chain_step)
qed

lemma wraps_frame:
  "wraps vs sz h \<Longrightarrow> length vs \<le> length vs' \<Longrightarrow> sz \<le> length vs \<Longrightarrow>
   \<forall>j. h < j \<and> j < length vs \<longrightarrow> vs' ! j = vs ! j \<Longrightarrow> wraps vs' sz h"
proof (induction rule: wraps.induct)
  case (wraps_last h)
  have "h + 1 < length vs" using wraps_last.hyps(1) wraps_last.hyps(3) by (simp add: record_end_def)
  then have "record_end vs' h = record_end vs h" using wraps_last.prems by (simp add: record_end_def)
  with wraps_last show ?case by (auto intro: wraps.wraps_last)
next
  case (wraps_step h)
  have "h + 1 < length vs" using wraps_step.hyps(1) wraps_step.prems(2) by (simp add: record_end_def)
  then have e: "record_end vs' h = record_end vs h" using wraps_step.prems by (simp add: record_end_def)
  have "h < record_end vs h" by (simp add: record_end_def)
  then have "\<forall>j. record_end vs h < j \<and> j < length vs \<longrightarrow> vs' ! j = vs ! j"
    using wraps_step.prems(3) by auto
  with wraps_step e show ?case by (auto intro: wraps.wraps_step)
qed

section \<open>Writing words into the vector\<close>

lemma length_store: "t + length ws \<le> length vs \<Longrightarrow> length (store vs t ws) = length vs"
  by (simp add: store_def)

lemma nth_store:
  "t + length ws \<le> length vs \<Longrightarrow> j < length vs \<Longrightarrow>
   store vs t ws ! j = (if j < t then vs ! j else if j < t + length ws then ws ! (j - t) else vs ! j)"
  by (auto simp: store_def nth_append)

lemma store_Nil: "store vs t [] = vs"
  by (simp add: store_def)

lemma store_Cons: "t < length vs \<Longrightarrow> store (vs[t := w]) (Suc t) ws = store vs t (w # ws)"
  by (simp add: store_def take_Suc_conv_app_nth)

lemma take_drop_store:
  "t + length ws \<le> length vs \<Longrightarrow> take (length ws) (drop t (store vs t ws)) = ws"
  by (simp add: store_def)


section \<open>One step of each loop\<close>

lemma next_index_eq:
  assumes "h < m_size p" "h + 1 < length (m_vectors p)" "length (m_vectors p) < 4294967296"
    and "record_end (m_vectors p) h < 4294967296"
  shows "next_index p h = Some (circ_next (m_vectors p) (m_size p) h)"
  using assms
  by (simp add: next_index_def get_length_def vec_get_def u32_id circ_next_def record_end_def Let_def)

lemma get_vector_loop_stop:
  assumes "head = m_tail p" "c < length (m_at_end p)" "m_at_end p ! c"
  shows "get_vector_loop c head k p = Some (No_vector, k, p)"
  by (subst get_vector_loop.simps[of c head k p]) (use assms in \<open>simp add: vec_get_def\<close>)

lemma get_vector_loop_step:
  assumes cont: "head \<noteq> m_tail p \<or> \<not> m_at_end p ! c"
    and c: "c < length (m_at_end p)" "c < length (m_heads p)" and hd: "m_heads p ! c = head"
    and bounds: "head < m_size p" "m_tail p < m_size p" "head + 1 < length (m_vectors p)"
      "length (m_vectors p) < 4294967296" "record_end (m_vectors p) head < 4294967296"
      "k + 1 < 4294967296"
  shows "get_vector_loop c head k p =
    (if c \<noteq> m_vectors p ! head
     then Some (Vector (m_vectors p ! (head + 1)) (head + 2), k + 1,
            p\<lparr>m_heads := (m_heads p)[c := circ_next (m_vectors p) (m_size p) head],
              m_at_end := (m_at_end p)[c := (circ_next (m_vectors p) (m_size p) head = m_tail p)]\<rparr>)
     else get_vector_loop c (circ_next (m_vectors p) (m_size p) head) (k + 1)
            (p\<lparr>m_heads := (m_heads p)[c := circ_next (m_vectors p) (m_size p) head],
              m_at_end := (m_at_end p)[c := (circ_next (m_vectors p) (m_size p) head = m_tail p)]\<rparr>))"
proof -
  have n: "next_index p head = Some (circ_next (m_vectors p) (m_size p) head)"
    using bounds by (intro next_index_eq) auto
  have g: "(if head \<noteq> m_tail p then Some True else map_option Not (vec_get (m_at_end p) c)) = Some True"
    using cont c by (auto simp: vec_get_def)
  have w: "get_owner p head = Some (m_vectors p ! head)"
    using bounds(3) by (simp add: get_owner_def vec_get_def)
  have l: "get_length (p\<lparr>m_heads := hs, m_at_end := ae\<rparr>) head = Some (m_vectors p ! (head + 1))" for hs ae
    using bounds(3,4) by (simp add: get_length_def vec_get_def u32_id)
  have k: "u32 (k + 1) = k + 1" using bounds(6) by (simp add: u32_id)
  have v: "vec_get (m_heads p) c = Some head" using c hd by (simp add: vec_get_def)
  have e: "vec_set (m_at_end p) c b = Some ((m_at_end p)[c := b])" for b
    using c by (simp add: vec_set_def)
  show ?thesis
    apply (subst get_vector_loop.simps[of c head k p])
    apply (simp only: g w n l k v bounds(1,2) get_ptr_def Let_def bind.bind_lunit if_True if_False
          simp_thms)
    apply (simp add: e)
    done
qed

lemma advance_head_stop:
  assumes "i < length (m_heads p)"
    and "\<not> (m_tail p < m_heads p ! i \<and> m_heads p ! i < u32 (m_tail p + capacity))"
  shows "advance_head capacity i p = Some p"
  by (subst advance_head.simps[of capacity i p]) (use assms in \<open>auto simp: vec_get_def\<close>)

lemma advance_head_step:
  assumes "i < length (m_heads p)"
    and "m_tail p < m_heads p ! i" "m_heads p ! i < u32 (m_tail p + capacity)"
    and "next_index p (m_heads p ! i) = Some h'"
  shows "advance_head capacity i p = advance_head capacity i (p\<lparr>m_heads := (m_heads p)[i := h']\<rparr>)"
  by (subst advance_head.simps[of capacity i p]) (use assms in \<open>auto simp: vec_get_def\<close>)

section \<open>Reading\<close>

lemma moved_sel [simp]:
  "m_vectors (moved p c h) = m_vectors p" "m_size (moved p c h) = m_size p"
  "m_tail (moved p c h) = m_tail p" "m_heads (moved p c h) = (m_heads p)[c := h]"
  "m_at_end (moved p c h) = (m_at_end p)[c := (h = m_tail p)]"
  by (simp_all add: moved_def)

lemma moved_moved: "moved (moved p c h1) c h2 = moved p c h2"
  by (simp add: moved_def)

lemma moved_id:
  assumes "m_heads p ! c = h" "m_at_end p ! c = (h = m_tail p)"
  shows "moved p c h = p"
proof -
  have a: "(m_heads p)[c := h] = m_heads p" unfolding assms(1)[symmetric] by simp
  have b: "(m_at_end p)[c := (h = m_tail p)] = m_at_end p" unfolding assms(2)[symmetric] by simp
  show ?thesis by (simp add: moved_def a b)
qed

lemma fetch_ok_skip:
  "vs ! h = c \<Longrightarrow> fetch_ok vs sz t c (circ_next vs sz h) r h' \<Longrightarrow> fetch_ok vs sz t c h r h'"
proof (cases r)
  case No_vector
  assume "vs ! h = c" "fetch_ok vs sz t c (circ_next vs sz h) r h'"
  with No_vector show ?thesis by (simp add: fetch_ok_def skips_step)
next
  case (Vector n ptr)
  assume a: "vs ! h = c" "fetch_ok vs sz t c (circ_next vs sz h) r h'"
  with Vector obtain pos where p: "ptr = pos + 2" "n = vs ! (pos + 1)"
    "skips vs sz c (circ_next vs sz h) pos" "vs ! pos \<noteq> c" "h' = circ_next vs sz pos"
    by (auto simp: fetch_ok_def)
  from a(1) p(3) have "skips vs sz c h pos" by (rule skips_step)
  with p Vector show ?thesis by (auto simp: fetch_ok_def)
qed

lemma fetch_ok_here:
  "vs ! h \<noteq> c \<Longrightarrow> fetch_ok vs sz t c h (Vector (vs ! (h + 1)) (h + 2)) (circ_next vs sz h)"
  by (simp add: fetch_ok_def skips_refl)

lemma fetch_ok_none: "fetch_ok vs sz t c t No_vector t"
  by (simp add: fetch_ok_def skips_refl)

lemma get_vector_loop_chain:
  assumes "chain vs t h"
    and "m_vectors p = vs" "m_tail p = t" "t < m_size p" "m_size p \<le> length vs"
    and "length vs < 4294967296" "length (m_at_end p) = length (m_heads p)"
    and "c < length (m_heads p)" "m_heads p ! c = h" "h = t \<longrightarrow> m_at_end p ! c"
    and "k + (t - h) < 4294967296"
  shows "\<exists>r k' h'. get_vector_loop c h k p = Some (r, k', moved p c h') \<and> 2 * k' \<le> 2 * k + (t - h) \<and>
           fetch_ok vs (m_size p) t c h r h' \<and> head_ok vs (m_size p) t h' (h' = t)"
  using assms
proof (induction arbitrary: p k rule: chain.induct)
  case chain_refl
  have "get_vector_loop c t k p = Some (No_vector, k, p)"
    using chain_refl by (intro get_vector_loop_stop) auto
  moreover have "moved p c t = p" using chain_refl by (intro moved_id) auto
  ultimately show ?case
    by (intro exI[of _ No_vector] exI[of _ k] exI[of _ t]) (simp add: fetch_ok_none head_ok_def)
next
  case (chain_step h)
  let ?e = "record_end vs h"
  let ?sz = "m_size p"
  have lt: "h + 2 \<le> ?e" by (simp add: record_end_def)
  have cn: "circ_next vs ?sz h = ?e" using chain_step.hyps(1) chain_step.prems(3)
    by (simp add: circ_next_def)
  have step: "get_vector_loop c h k p =
    (if c \<noteq> vs ! h then Some (Vector (vs ! (h + 1)) (h + 2), k + 1, moved p c ?e)
     else get_vector_loop c ?e (k + 1) (moved p c ?e))"
    using get_vector_loop_step[of h p c k] chain_step.prems chain_step.hyps(1) lt
    by (simp add: cn moved_def)
  show ?case
  proof (cases "c = vs ! h")
    case False
    have "head_ok vs ?sz t ?e (?e = t)"
      using chain_step.hyps(1,2) by (auto simp: head_ok_def)
    moreover have "fetch_ok vs ?sz t c h (Vector (vs ! (h + 1)) (h + 2)) ?e"
      using fetch_ok_here[of vs h c ?sz t] False cn by simp
    ultimately show ?thesis using step False lt chain_step.hyps(1) by auto
  next
    case True
    have "\<exists>r k' h'. get_vector_loop c ?e (k + 1) (moved p c ?e) = Some (r, k', moved (moved p c ?e) c h') \<and>
        2 * k' \<le> 2 * (k + 1) + (t - ?e) \<and> fetch_ok vs (m_size (moved p c ?e)) t c ?e r h' \<and>
        head_ok vs (m_size (moved p c ?e)) t h' (h' = t)"
      using chain_step.prems chain_step.hyps(1) lt by (intro chain_step.IH) auto
    then obtain r k' h' where
      r: "get_vector_loop c ?e (k + 1) (moved p c ?e) = Some (r, k', moved p c h')"
        "2 * k' \<le> 2 * (k + 1) + (t - ?e)" "fetch_ok vs ?sz t c ?e r h'" "head_ok vs ?sz t h' (h' = t)"
      by (auto simp: moved_moved)
    have "fetch_ok vs ?sz t c h r h'" using fetch_ok_skip[of vs h c ?sz t r h'] True r(3) cn by simp
    moreover have "2 * k' \<le> 2 * k + (t - h)" using r(2) lt chain_step.hyps(1) by simp
    ultimately show ?thesis using step True r(1,4) by auto
  qed
qed

lemma get_vector_loop_wraps:
  assumes "wraps vs sz h"
    and "m_vectors p = vs" "m_size p = sz" "m_tail p = t" "t < sz" "chain vs t 0" "sz \<le> length vs"
    and "length vs < 4294967296" "length (m_at_end p) = length (m_heads p)"
    and "c < length (m_heads p)" "m_heads p ! c = h" "t \<le> h"
    and "k + (sz - h) + t < 4294967296"
  shows "\<exists>r k' h'. get_vector_loop c h k p = Some (r, k', moved p c h') \<and> 2 * k' \<le> 2 * k + (sz - h) + 1 + t \<and>
           fetch_ok vs sz t c h r h' \<and> head_ok vs sz t h' (h' = t)"
  using assms
proof (induction arbitrary: p k rule: wraps.induct)
  case (wraps_last h)
  let ?e = "record_end vs h"
  show ?case
  proof (cases "h = t \<and> m_at_end p ! c")
    case True
    have "get_vector_loop c h k p = Some (No_vector, k, p)"
      using wraps_last.prems True by (intro get_vector_loop_stop) auto
    moreover have "moved p c h = p" using wraps_last.prems True by (intro moved_id) auto
    ultimately show ?thesis using True
      by (intro exI[of _ No_vector] exI[of _ k] exI[of _ t]) (simp add: fetch_ok_none head_ok_def)
  next
    case False
    have lt: "h + 2 \<le> ?e" by (simp add: record_end_def)
    have cn: "circ_next vs sz h = 0" using wraps_last.hyps(2) by (simp add: circ_next_def)
    have step: "get_vector_loop c h k p =
      (if c \<noteq> vs ! h then Some (Vector (vs ! (h + 1)) (h + 2), k + 1, moved p c 0)
       else get_vector_loop c 0 (k + 1) (moved p c 0))"
      using get_vector_loop_step[of h p c k] wraps_last.prems wraps_last.hyps lt False
      by (simp add: cn moved_def)
    have h0: "head_ok vs sz t 0 (0 = t)"
      using wraps_last.prems(5) by (auto simp: head_ok_def)
    show ?thesis
    proof (cases "c = vs ! h")
      case False
      have "fetch_ok vs sz t c h (Vector (vs ! (h + 1)) (h + 2)) 0"
        using fetch_ok_here[of vs h c sz t] False cn by simp
      then show ?thesis using step False h0 wraps_last.hyps(1) by auto
    next
      case True
      have "\<exists>r k' h'. get_vector_loop c 0 (k + 1) (moved p c 0) = Some (r, k', moved (moved p c 0) c h') \<and>
          2 * k' \<le> 2 * (k + 1) + (t - 0) \<and> fetch_ok vs (m_size (moved p c 0)) t c 0 r h' \<and>
          head_ok vs (m_size (moved p c 0)) t h' (h' = t)"
        using wraps_last.prems wraps_last.hyps(1)
        by (intro get_vector_loop_chain) auto
      then obtain r k' h' where
        r: "get_vector_loop c 0 (k + 1) (moved p c 0) = Some (r, k', moved p c h')"
          "2 * k' \<le> 2 * (k + 1) + t" "fetch_ok vs sz t c 0 r h'" "head_ok vs sz t h' (h' = t)"
        using wraps_last.prems(2) by (auto simp: moved_moved)
      have "fetch_ok vs sz t c h r h'" using fetch_ok_skip[of vs h c sz t r h'] True r(3) cn by simp
      moreover have "2 * k' \<le> 2 * k + (sz - h) + 1 + t" using r(2) wraps_last.hyps(1) by simp
      ultimately show ?thesis using step True r(1,4) by auto
    qed
  qed
next
  case (wraps_step h)
  let ?e = "record_end vs h"
  show ?case
  proof (cases "h = t \<and> m_at_end p ! c")
    case True
    have "get_vector_loop c h k p = Some (No_vector, k, p)"
      using wraps_step.prems True by (intro get_vector_loop_stop) auto
    moreover have "moved p c h = p" using wraps_step.prems True by (intro moved_id) auto
    ultimately show ?thesis using True
      by (intro exI[of _ No_vector] exI[of _ k] exI[of _ t]) (simp add: fetch_ok_none head_ok_def)
  next
    case False
    have lt: "h + 2 \<le> ?e" by (simp add: record_end_def)
    have cn: "circ_next vs sz h = ?e" using wraps_step.hyps(1) by (simp add: circ_next_def)
    have step: "get_vector_loop c h k p =
      (if c \<noteq> vs ! h then Some (Vector (vs ! (h + 1)) (h + 2), k + 1, moved p c ?e)
       else get_vector_loop c ?e (k + 1) (moved p c ?e))"
      using get_vector_loop_step[of h p c k] wraps_step.prems wraps_step.hyps(1) lt False
      by (simp add: cn moved_def)
    have he: "head_ok vs sz t ?e (?e = t)"
      using wraps_step.hyps(2) wraps_step.prems(11) lt by (auto simp: head_ok_def)
    show ?thesis
    proof (cases "c = vs ! h")
      case False
      have "fetch_ok vs sz t c h (Vector (vs ! (h + 1)) (h + 2)) ?e"
        using fetch_ok_here[of vs h c sz t] False cn by simp
      then show ?thesis using step False he lt wraps_step.hyps(1) by auto
    next
      case True
      have "\<exists>r k' h'. get_vector_loop c ?e (k + 1) (moved p c ?e) = Some (r, k', moved (moved p c ?e) c h') \<and>
          2 * k' \<le> 2 * (k + 1) + (sz - ?e) + 1 + t \<and> fetch_ok vs sz t c ?e r h' \<and> head_ok vs sz t h' (h' = t)"
        using wraps_step.prems wraps_step.hyps(1) lt by (intro wraps_step.IH) auto
      then obtain r k' h' where
        r: "get_vector_loop c ?e (k + 1) (moved p c ?e) = Some (r, k', moved p c h')"
          "2 * k' \<le> 2 * (k + 1) + (sz - ?e) + 1 + t" "fetch_ok vs sz t c ?e r h'" "head_ok vs sz t h' (h' = t)"
        by (auto simp: moved_moved)
      have "fetch_ok vs sz t c h r h'" using fetch_ok_skip[of vs h c sz t r h'] True r(3) cn by simp
      moreover have "2 * k' \<le> 2 * k + (sz - h) + 1 + t" using r(2) lt wraps_step.hyps(1) by simp
      ultimately show ?thesis using step True r(1,4) by auto
    qed
  qed
qed

section \<open>Writing\<close>

lemma list_update_same: "xs ! i = x \<Longrightarrow> xs[i := x] = xs"
  by (metis list_update_id)

lemma advance_head_wraps:
  assumes "wraps vs sz h"
    and "m_vectors p = vs" "m_size p = sz" "m_tail p = t" "sz \<le> length vs"
    and "length vs < 4294967296" "t + cap < 4294967296"
    and "i < length (m_heads p)" "m_heads p ! i = h" "t < h"
  shows "\<exists>h'. advance_head cap i p = Some (p\<lparr>m_heads := (m_heads p)[i := h']\<rparr>) \<and>
           \<not> (t < h' \<and> h' < t + cap) \<and> (h' = 0 \<or> h \<le> h' \<and> wraps vs sz h') \<and>
           (\<not> h < t + cap \<longrightarrow> h' = h) \<and> passes vs sz h h'"
  using assms
proof (induction arbitrary: p rule: wraps.induct)
  case (wraps_last h)
  have w: "wraps vs sz h" using wraps_last.hyps by (rule wraps.wraps_last)
  have u: "u32 (m_tail p + cap) = t + cap" using wraps_last.prems by (simp add: u32_id)
  show ?case
  proof (cases "h < t + cap")
    case False
    have "advance_head cap i p = Some p"
      using wraps_last.prems False u by (intro advance_head_stop) auto
    moreover have "p\<lparr>m_heads := (m_heads p)[i := h]\<rparr> = p"
      using wraps_last.prems by (simp add: list_update_same)
    ultimately show ?thesis using False w by (intro exI[of _ h]) (simp add: passes_refl)
  next
    case True
    have lt: "h + 2 \<le> record_end vs h" by (simp add: record_end_def)
    have n: "next_index p h = Some 0"
      using next_index_eq[of h p] wraps_last.prems wraps_last.hyps lt by (simp add: circ_next_def)
    let ?p2 = "p\<lparr>m_heads := (m_heads p)[i := 0]\<rparr>"
    have "advance_head cap i p = advance_head cap i ?p2"
      using wraps_last.prems True u n by (intro advance_head_step) auto
    moreover have "advance_head cap i ?p2 = Some ?p2"
      using wraps_last.prems by (intro advance_head_stop) auto
    ultimately show ?thesis using True wraps_last.hyps(2)
      by (intro exI[of _ 0]) (simp add: passes_wrap)
  qed
next
  case (wraps_step h)
  let ?e = "record_end vs h"
  have w: "wraps vs sz h" using wraps_step.hyps by (rule wraps.wraps_step)
  have u: "u32 (m_tail p + cap) = t + cap" using wraps_step.prems by (simp add: u32_id)
  show ?case
  proof (cases "h < t + cap")
    case False
    have "advance_head cap i p = Some p"
      using wraps_step.prems False u by (intro advance_head_stop) auto
    moreover have "p\<lparr>m_heads := (m_heads p)[i := h]\<rparr> = p"
      using wraps_step.prems by (simp add: list_update_same)
    ultimately show ?thesis using False w by (intro exI[of _ h]) (simp add: passes_refl)
  next
    case True
    have lt: "h + 2 \<le> ?e" by (simp add: record_end_def)
    have n: "next_index p h = Some ?e"
      using next_index_eq[of h p] wraps_step.prems wraps_step.hyps(1) lt by (simp add: circ_next_def)
    let ?p2 = "p\<lparr>m_heads := (m_heads p)[i := ?e]\<rparr>"
    have s: "advance_head cap i p = advance_head cap i ?p2"
      using wraps_step.prems True u n by (intro advance_head_step) auto
    have "\<exists>h'. advance_head cap i ?p2 = Some (?p2\<lparr>m_heads := (m_heads ?p2)[i := h']\<rparr>) \<and>
           \<not> (t < h' \<and> h' < t + cap) \<and> (h' = 0 \<or> ?e \<le> h' \<and> wraps vs sz h') \<and>
           (\<not> ?e < t + cap \<longrightarrow> h' = ?e) \<and> passes vs sz ?e h'"
      using wraps_step.prems lt by (intro wraps_step.IH) auto
    then obtain h' where h': "advance_head cap i ?p2 = Some (p\<lparr>m_heads := (m_heads p)[i := h']\<rparr>)"
      "\<not> (t < h' \<and> h' < t + cap)" "h' = 0 \<or> ?e \<le> h' \<and> wraps vs sz h'" "passes vs sz ?e h'"
      by auto
    have "h' = 0 \<or> h \<le> h' \<and> wraps vs sz h'" using h'(3) lt by auto
    moreover have "passes vs sz h h'" using wraps_step.hyps(1) h'(4) by (rule passes_step)
    ultimately show ?thesis using s h'(1,2) True by (intro exI[of _ h']) simp
  qed
qed

lemma advance_head_ok:
  assumes "head_ok vs sz t h a" "chain vs t 0"
    and "m_vectors p = vs" "m_size p = sz" "m_tail p = t" "sz \<le> length vs"
    and "length vs < 4294967296" "t + cap < 4294967296"
    and "i < length (m_heads p)" "m_heads p ! i = h"
  shows "\<exists>h'. advance_head cap i p = Some (p\<lparr>m_heads := (m_heads p)[i := h']\<rparr>) \<and>
           pushed vs sz t cap h h'"
proof (cases "t < h")
  case False
  have u: "u32 (m_tail p + cap) = t + cap" using assms by (simp add: u32_id)
  have "advance_head cap i p = Some p"
    using assms False by (intro advance_head_stop) auto
  moreover have "p\<lparr>m_heads := (m_heads p)[i := h]\<rparr> = p"
    using assms by (simp add: list_update_same)
  moreover have "chain vs t h" using assms(1) False by (auto simp: head_ok_def intro: chain_refl)
  ultimately show ?thesis using False by (intro exI[of _ h]) (simp add: pushed_def passes_refl)
next
  case True
  then have w: "wraps vs sz h" using assms(1) by (auto simp: head_ok_def)
  from advance_head_wraps[OF w assms(3-10) True]
  obtain h' where h': "advance_head cap i p = Some (p\<lparr>m_heads := (m_heads p)[i := h']\<rparr>)"
    "\<not> (t < h' \<and> h' < t + cap)" "h' = 0 \<or> h \<le> h' \<and> wraps vs sz h'" "\<not> h < t + cap \<longrightarrow> h' = h"
    "passes vs sz h h'"
    by blast
  have "h' \<le> t \<and> chain vs t h' \<or> t + cap \<le> h' \<and> wraps vs sz h'"
    using h'(2,3) True assms(2) by auto
  then have "pushed vs sz t cap h h'" using h'(2,3,4,5) True by (auto simp: pushed_def)
  with h'(1) show ?thesis by blast
qed

lemma advance_heads_ok:
  assumes "distinct js" "\<forall>j\<in>set js. j < length (m_heads p)"
    and "\<forall>j\<in>set js. head_ok vs sz t (m_heads p ! j) (m_at_end p ! j)" "chain vs t 0"
    and "m_vectors p = vs" "m_size p = sz" "m_tail p = t" "sz \<le> length vs"
    and "length vs < 4294967296" "t + cap < 4294967296"
    and "length (m_at_end p) = length (m_heads p)"
  shows "\<exists>hs' ae'. advance_heads cap js p = Some (p\<lparr>m_heads := hs', m_at_end := ae'\<rparr>) \<and>
           length hs' = length (m_heads p) \<and> length ae' = length (m_heads p) \<and>
           (\<forall>j<length (m_heads p).
              if j \<in> set js then pushed vs sz t cap (m_heads p ! j) (hs' ! j) \<and> \<not> ae' ! j
              else hs' ! j = m_heads p ! j \<and> ae' ! j = m_at_end p ! j)"
  using assms
proof (induction js arbitrary: p)
  case Nil
  show ?case
    by (intro exI[of _ "m_heads p"] exI[of _ "m_at_end p"]) (use Nil in simp)
next
  case (Cons i js)
  let ?hs = "m_heads p" and ?ae = "m_at_end p"
  have i: "i < length ?hs" "i \<notin> set js" using Cons.prems by auto
  have "head_ok vs sz t (?hs ! i) (?ae ! i)" using Cons.prems(3) by simp
  from advance_head_ok[OF this Cons.prems(4-10) i(1) refl]
  obtain h' where h': "advance_head cap i p = Some (p\<lparr>m_heads := ?hs[i := h']\<rparr>)"
    "pushed vs sz t cap (?hs ! i) h'" by blast
  let ?p1 = "p\<lparr>m_heads := ?hs[i := h'], m_at_end := ?ae[i := False]\<rparr>"
  have step: "advance_heads cap (i # js) p = advance_heads cap js ?p1"
    using h'(1) i(1) Cons.prems(11) by (simp add: vec_set_def)
  have "\<exists>hs' ae'. advance_heads cap js ?p1 = Some (?p1\<lparr>m_heads := hs', m_at_end := ae'\<rparr>) \<and>
           length hs' = length (m_heads ?p1) \<and> length ae' = length (m_heads ?p1) \<and>
           (\<forall>j<length (m_heads ?p1).
              if j \<in> set js then pushed vs sz t cap (m_heads ?p1 ! j) (hs' ! j) \<and> \<not> ae' ! j
              else hs' ! j = m_heads ?p1 ! j \<and> ae' ! j = m_at_end ?p1 ! j)"
  proof (intro Cons.IH)
    show "\<forall>j\<in>set js. head_ok vs sz t (m_heads ?p1 ! j) (m_at_end ?p1 ! j)"
    proof
      fix j assume j: "j \<in> set js"
      then have "j \<noteq> i" using i(2) by auto
      then show "head_ok vs sz t (m_heads ?p1 ! j) (m_at_end ?p1 ! j)"
        using Cons.prems(3) j by simp
    qed
  qed (use Cons.prems in auto)
  then obtain hs' ae' where
    r0: "advance_heads cap js ?p1 = Some (?p1\<lparr>m_heads := hs', m_at_end := ae'\<rparr>)"
      "length hs' = length (m_heads ?p1)" "length ae' = length (m_heads ?p1)"
      "\<forall>j<length (m_heads ?p1).
              if j \<in> set js then pushed vs sz t cap (m_heads ?p1 ! j) (hs' ! j) \<and> \<not> ae' ! j
              else hs' ! j = m_heads ?p1 ! j \<and> ae' ! j = m_at_end ?p1 ! j"
    by blast
  have r: "advance_heads cap js ?p1 = Some (p\<lparr>m_heads := hs', m_at_end := ae'\<rparr>)"
    "length hs' = length ?hs" "length ae' = length ?hs"
    using r0(1,2,3) by simp_all
  have r4: "if j \<in> set js then pushed vs sz t cap (?hs[i := h'] ! j) (hs' ! j) \<and> \<not> ae' ! j
              else hs' ! j = ?hs[i := h'] ! j \<and> ae' ! j = ?ae[i := False] ! j"
    if "j < length ?hs" for j
    using r0(4)[rule_format, of j] that by (simp cong: if_cong)
  have all: "\<forall>j<length ?hs. if j \<in> set (i # js) then pushed vs sz t cap (?hs ! j) (hs' ! j) \<and> \<not> ae' ! j
              else hs' ! j = ?hs ! j \<and> ae' ! j = ?ae ! j"
  proof (intro allI impI)
    fix j assume j: "j < length ?hs"
    show "if j \<in> set (i # js) then pushed vs sz t cap (?hs ! j) (hs' ! j) \<and> \<not> ae' ! j
              else hs' ! j = ?hs ! j \<and> ae' ! j = ?ae ! j"
    proof (cases "j = i")
      case True
      then show ?thesis using r4[OF j] j i h'(2) Cons.prems(11) by (simp cong: if_cong)
    next
      case False
      then show ?thesis using r4[OF j] j by (simp cong: if_cong)
    qed
  qed
  have "advance_heads cap (i # js) p = Some (p\<lparr>m_heads := hs', m_at_end := ae'\<rparr>)"
    using step r(1) by (simp only:)
  with r(2,3) all show ?case by blast
qed

lemma store_store:
  "t + length ws + length us \<le> length vs \<Longrightarrow>
   store (store vs t ws) (t + length ws) us = store vs t (ws @ us)"
  by (simp add: store_def add.commute add.left_commute)

lemma put_word_eq:
  "m_tail p < length (m_vectors p) \<Longrightarrow> length (m_vectors p) < 4294967296 \<Longrightarrow>
   put_word v p = Some (p\<lparr>m_vectors := (m_vectors p)[m_tail p := v], m_tail := m_tail p + 1\<rparr>)"
  by (simp add: put_word_def vec_set_def u32_id)

lemma add_vector_elems_eq:
  "m_tail p + length ws \<le> length (m_vectors p) \<Longrightarrow> length (m_vectors p) < 4294967296 \<Longrightarrow>
   add_vector_elems ws p =
     Some (p\<lparr>m_vectors := store (m_vectors p) (m_tail p) ws, m_tail := m_tail p + length ws\<rparr>)"
proof (induction ws arbitrary: p)
  case Nil
  show ?case by (simp add: store_Nil)
next
  case (Cons w ws)
  let ?p1 = "p\<lparr>m_vectors := (m_vectors p)[m_tail p := w], m_tail := m_tail p + 1\<rparr>"
  have 1: "add_vector_elem w p = Some ?p1"
    using Cons.prems by (simp add: add_vector_elem_def put_word_eq)
  have 2: "add_vector_elems ws ?p1 =
     Some (?p1\<lparr>m_vectors := store (m_vectors ?p1) (m_tail ?p1) ws, m_tail := m_tail ?p1 + length ws\<rparr>)"
    using Cons.prems by (intro Cons.IH) auto
  have 3: "store ((m_vectors p)[m_tail p := w]) (Suc (m_tail p)) ws = store (m_vectors p) (m_tail p) (w # ws)"
    using Cons.prems by (intro store_Cons) auto
  show ?case using 1 2 3 by simp
qed

lemma add_vector_elems_none: "add_vector_elems [] = Some"
  by (rule ext) simp

lemma add_vector_elems_one: "add_vector_elems [b] = put_word b"
  by (rule ext) (simp add: add_vector_elem_def add_vector_elems_none)

lemma add_vector_elems_two: "put_word a p \<bind> put_word b = add_vector_elems [a, b] p"
  by (simp add: add_vector_elem_def add_vector_elems_one)

lemma vec_reserve_props:
  "length vs \<le> length (vec_reserve vs s d)" "s \<le> length (vec_reserve vs s d)"
  "length (vec_reserve vs s d) = max (length vs) s"
  "j < length vs \<Longrightarrow> vec_reserve vs s d ! j = vs ! j"
  by (auto simp: vec_reserve_def vec_resize_def nth_append)

lemma head_ok_reserve:
  assumes "head_ok vs sz t h a" "sz \<le> length vs" "t < sz"
  shows "head_ok (vec_reserve vs s d) sz t h a"
proof -
  let ?vs1 = "vec_reserve vs s d"
  have c: "chain ?vs1 t h" if "chain vs t h"
    using assms(2,3) by (intro chain_frame[OF that]) (auto simp: vec_reserve_props)
  have w: "wraps ?vs1 sz h" if "wraps vs sz h"
    using assms(2) by (intro wraps_frame[OF that]) (auto simp: vec_reserve_props)
  show ?thesis using assms(1) c w by (auto simp: head_ok_def)
qed

lemma begin_add_vector_eq:
  assumes inv: "pool_inv p" and fit: "m_size p + n + 2 < 4294967296"
  shows "\<exists>hs'. begin_add_vector owner n p =
      Some (p\<lparr>m_vectors := store (vec_reserve (m_vectors p) (m_size p + n + 2) 0) (m_tail p) [owner, n],
               m_tail := m_tail p + 2, m_heads := hs',
               m_at_end := replicate (length (m_heads p)) False\<rparr>) \<and>
      length hs' = length (m_heads p) \<and>
      (\<forall>j<length (m_heads p).
         pushed (vec_reserve (m_vectors p) (m_size p + n + 2) 0) (m_size p) (m_tail p) (n + 2)
           (m_heads p ! j) (hs' ! j))"
proof -
  let ?vs = "m_vectors p" and ?sz = "m_size p" and ?t = "m_tail p" and ?hs = "m_heads p"
  let ?vs1 = "vec_reserve ?vs (?sz + n + 2) 0"
  let ?p1 = "p\<lparr>m_vectors := ?vs1\<rparr>"
  from inv have f: "?t < ?sz" "?sz \<le> length ?vs" "length ?vs < 4294967296"
    "length (m_at_end p) = length ?hs" "chain ?vs ?t 0"
    and hd: "\<forall>i<length ?hs. head_ok ?vs ?sz ?t (?hs ! i) (m_at_end p ! i)"
    by (simp_all add: pool_inv_def)
  have l1: "length ?vs1 < 4294967296" "?sz \<le> length ?vs1" "?sz + n + 2 \<le> length ?vs1"
    using f fit by (simp_all add: vec_reserve_props(3))
  have c1: "chain ?vs1 ?t 0"
    using f by (intro chain_frame[OF f(5)]) (auto simp: vec_reserve_props)
  have "\<exists>hs' ae'. advance_heads (n + 2) [0..<length ?hs] ?p1 = Some (?p1\<lparr>m_heads := hs', m_at_end := ae'\<rparr>) \<and>
           length hs' = length (m_heads ?p1) \<and> length ae' = length (m_heads ?p1) \<and>
           (\<forall>j<length (m_heads ?p1).
              if j \<in> set [0..<length ?hs] then pushed ?vs1 ?sz ?t (n + 2) (m_heads ?p1 ! j) (hs' ! j) \<and> \<not> ae' ! j
              else hs' ! j = m_heads ?p1 ! j \<and> ae' ! j = m_at_end ?p1 ! j)"
  proof (intro advance_heads_ok)
    show "\<forall>j\<in>set [0..<length ?hs]. head_ok ?vs1 ?sz ?t (m_heads ?p1 ! j) (m_at_end ?p1 ! j)"
      using hd f by (auto intro: head_ok_reserve)
  qed (use f l1 c1 fit in auto)
  then obtain hs' ae' where
    r0: "advance_heads (n + 2) [0..<length ?hs] ?p1 = Some (?p1\<lparr>m_heads := hs', m_at_end := ae'\<rparr>)"
      "length hs' = length (m_heads ?p1)" "length ae' = length (m_heads ?p1)"
      "\<forall>j<length (m_heads ?p1).
              if j \<in> set [0..<length ?hs] then pushed ?vs1 ?sz ?t (n + 2) (m_heads ?p1 ! j) (hs' ! j) \<and> \<not> ae' ! j
              else hs' ! j = m_heads ?p1 ! j \<and> ae' ! j = m_at_end ?p1 ! j"
    by blast
  have len: "length hs' = length ?hs" "length ae' = length ?hs" using r0(2,3) by simp_all
  have each: "pushed ?vs1 ?sz ?t (n + 2) (?hs ! j) (hs' ! j) \<and> \<not> ae' ! j" if "j < length ?hs" for j
    using r0(4)[rule_format, of j] that by (simp cong: if_cong)
  have ae: "ae' = replicate (length ?hs) False"
    using len each by (intro nth_equalityI) auto
  let ?p2 = "p\<lparr>m_vectors := ?vs1, m_heads := hs', m_at_end := ae'\<rparr>"
  have a: "advance_heads (n + 2) [0..<length ?hs] ?p1 = Some ?p2" using r0(1) by simp
  have w: "add_vector_elems [owner, n] ?p2 =
     Some (?p2\<lparr>m_vectors := store (m_vectors ?p2) (m_tail ?p2) [owner, n], m_tail := m_tail ?p2 + length [owner, n]\<rparr>)"
    using f l1 by (intro add_vector_elems_eq) auto
  have u: "u32 (n + 2) = n + 2" "u32 (?sz + (n + 2)) = ?sz + n + 2"
    using fit by (simp_all add: u32_id)
  have "begin_add_vector owner n p = add_vector_elems [owner, n] ?p2"
    using f(1) a fit by (simp add: begin_add_vector_def Let_def u32_id add_vector_elems_two)
  with w have "begin_add_vector owner n p =
      Some (p\<lparr>m_vectors := store ?vs1 ?t [owner, n], m_tail := ?t + 2, m_heads := hs',
               m_at_end := replicate (length ?hs) False\<rparr>)"
    by (simp add: ae)
  with len each show ?thesis by blast
qed

lemma write_chain_to:
  assumes c: "chain vs1 t h" and same: "\<forall>j<length vs1. j < t \<or> t + cap \<le> j \<longrightarrow> vs2 ! j = vs1 ! j"
    and len: "t < length vs1" and e: "record_end vs2 t = t + cap"
  shows "chain vs2 (t + cap) h"
proof -
  have "chain vs2 t h" using same len by (intro chain_frame[OF c]) auto
  moreover have "chain vs2 (t + cap) t"
    using e chain_refl[of vs2 "t + cap"] chain_step[of vs2 t "t + cap"] by simp
  ultimately show ?thesis by (rule chain_trans)
qed

lemma write_chain_wraps:
  assumes c: "chain vs1 t h" and same: "\<forall>j<length vs1. j < t \<or> t + cap \<le> j \<longrightarrow> vs2 ! j = vs1 ! j"
    and len: "t < sz" "sz \<le> length vs1" "t + cap \<le> length vs1" "length vs2 = length vs1"
    and e: "record_end vs2 t = t + cap" and over: "sz \<le> t + cap"
  shows "wraps vs2 sz h"
proof -
  have "chain vs2 t h" using same len by (intro chain_frame[OF c]) auto
  moreover have "wraps vs2 sz t" using len e over by (intro wraps_last) auto
  ultimately show ?thesis by (rule chain_wraps)
qed

lemma write_head_ok:
  assumes p: "pushed vs1 sz t cap h h'"
    and same: "\<forall>j<length vs1. j < t \<or> t + cap \<le> j \<longrightarrow> vs2 ! j = vs1 ! j"
    and len: "t < sz" "sz \<le> length vs1" "t + cap \<le> length vs1" "length vs2 = length vs1"
    and e: "record_end vs2 t = t + cap" and cap: "2 \<le> cap"
  shows "head_ok vs2 sz (if sz \<le> t + cap then 0 else t + cap) h' False"
proof -
  from p consider (behind) "h' \<le> t" "chain vs1 t h'" | (ahead) "t + cap \<le> h'" "wraps vs1 sz h'"
    by (auto simp: pushed_def)
  then show ?thesis
  proof cases
    case behind
    show ?thesis
    proof (cases "sz \<le> t + cap")
      case True
      have "wraps vs2 sz h'" using write_chain_wraps[OF behind(2) same len e True] .
      then show ?thesis using True by (simp add: head_ok_def)
    next
      case False
      have "chain vs2 (t + cap) h'" using write_chain_to[OF behind(2) same _ e] len by simp
      then show ?thesis using False behind(1) cap by (simp add: head_ok_def)
    qed
  next
    case ahead
    have lt: "h' < sz" using ahead(2) by (rule wraps_lt)
    have "wraps vs2 sz h'"
      using same len ahead(1) by (intro wraps_frame[OF ahead(2)]) auto
    then show ?thesis using ahead(1) lt by (simp add: head_ok_def)
  qed
qed

lemma add_vector_eq:
  assumes inv: "pool_inv p" and fit: "m_size p + length es + 2 < 4294967296"
  shows "\<exists>hs'. add_vector owner es p =
      Some (p\<lparr>m_vectors := store (vec_reserve (m_vectors p) (m_size p + length es + 2) 0) (m_tail p)
                               (owner # length es # es),
               m_tail := (if m_size p \<le> m_tail p + length es + 2 then 0 else m_tail p + length es + 2),
               m_heads := hs',
               m_at_end := replicate (length (m_heads p)) False\<rparr>) \<and>
      length hs' = length (m_heads p) \<and>
      (\<forall>j<length (m_heads p).
         pushed (vec_reserve (m_vectors p) (m_size p + length es + 2) 0) (m_size p) (m_tail p)
           (length es + 2) (m_heads p ! j) (hs' ! j))"
proof -
  let ?n = "length es"
  let ?vs = "m_vectors p" and ?sz = "m_size p" and ?t = "m_tail p" and ?hs = "m_heads p"
  let ?vs1 = "vec_reserve ?vs (?sz + ?n + 2) 0"
  from inv have f: "?t < ?sz" "?sz \<le> length ?vs" "length ?vs < 4294967296"
    by (simp_all add: pool_inv_def)
  have l1: "length ?vs1 < 4294967296" "?sz + ?n + 2 \<le> length ?vs1"
    using f fit by (simp_all add: vec_reserve_props(3))
  from begin_add_vector_eq[OF inv fit, of owner] obtain hs' where
    b: "begin_add_vector owner ?n p =
      Some (p\<lparr>m_vectors := store ?vs1 ?t [owner, ?n], m_tail := ?t + 2, m_heads := hs',
               m_at_end := replicate (length ?hs) False\<rparr>)"
    and r: "length hs' = length ?hs"
      "\<forall>j<length ?hs. pushed ?vs1 ?sz ?t (?n + 2) (?hs ! j) (hs' ! j)"
    by blast
  let ?p3 = "p\<lparr>m_vectors := store ?vs1 ?t [owner, ?n], m_tail := ?t + 2, m_heads := hs',
               m_at_end := replicate (length ?hs) False\<rparr>"
  have ls: "length (store ?vs1 ?t [owner, ?n]) = length ?vs1"
    using f l1 by (intro length_store) simp
  have w: "add_vector_elems es ?p3 =
     Some (?p3\<lparr>m_vectors := store (m_vectors ?p3) (m_tail ?p3) es, m_tail := m_tail ?p3 + length es\<rparr>)"
    using f l1 ls by (intro add_vector_elems_eq) auto
  have ss: "store (store ?vs1 ?t [owner, ?n]) (?t + 2) es = store ?vs1 ?t (owner # ?n # es)"
    using store_store[of ?t "[owner, ?n]" es ?vs1] f l1 by simp
  have u: "u32 ?n = ?n" using fit by (simp add: u32_id)
  let ?p4 = "p\<lparr>m_vectors := store ?vs1 ?t (owner # ?n # es), m_tail := ?t + 2 + ?n, m_heads := hs',
               m_at_end := replicate (length ?hs) False\<rparr>"
  have "?p3\<lparr>m_vectors := store (m_vectors ?p3) (m_tail ?p3) es, m_tail := m_tail ?p3 + length es\<rparr> = ?p4"
    using ss by (intro vector_pool.equality) simp_all
  with w have w': "add_vector_elems es ?p3 = Some ?p4" by (simp only:)
  have "add_vector owner es p = Some (end_add_vector ?p4)"
    unfolding add_vector_def u b using w' by simp
  then have "add_vector owner es p =
      Some (p\<lparr>m_vectors := store ?vs1 ?t (owner # ?n # es),
               m_tail := (if ?sz \<le> ?t + ?n + 2 then 0 else ?t + ?n + 2), m_heads := hs',
               m_at_end := replicate (length ?hs) False\<rparr>)"
    by (auto simp: end_add_vector_def add.commute add.left_commute intro: vector_pool.equality)
  with r show ?thesis by blast
qed

section \<open>The invariant\<close>

lemma pool_inv_reserve:
  assumes "0 < sz" "sz < 4294967296"
  shows "pool_inv (reserve num_threads sz)"
  using assms
  by (auto simp: pool_inv_def reserve_def vec_resize_def head_ok_def intro: chain_refl)

lemma pool_inv_add_vector:
  assumes inv: "pool_inv p" and fit: "m_size p + length es + 2 < 4294967296"
    and add: "add_vector owner es p = Some p'"
  shows "pool_inv p'"
proof -
  let ?n = "length es" and ?cap = "length es + 2"
  let ?vs = "m_vectors p" and ?sz = "m_size p" and ?t = "m_tail p" and ?hs = "m_heads p"
  let ?vs1 = "vec_reserve ?vs (?sz + ?n + 2) 0"
  let ?vs2 = "store ?vs1 ?t (owner # ?n # es)"
  let ?t' = "if ?sz \<le> ?t + ?cap then 0 else ?t + ?cap"
  from inv have f: "?t < ?sz" "?sz \<le> length ?vs" "length ?vs < 4294967296" "chain ?vs ?t 0"
    by (simp_all add: pool_inv_def)
  have l1: "length ?vs1 < 4294967296" "?sz + ?n + 2 \<le> length ?vs1" "?sz \<le> length ?vs1"
    using f fit by (simp_all add: vec_reserve_props(3))
  from add_vector_eq[OF inv fit, of owner] obtain hs' where
    a: "add_vector owner es p = Some (p\<lparr>m_vectors := ?vs2,
               m_tail := (if ?sz \<le> ?t + ?n + 2 then 0 else ?t + ?n + 2), m_heads := hs',
               m_at_end := replicate (length ?hs) False\<rparr>)"
    and r: "length hs' = length ?hs" "\<forall>j<length ?hs. pushed ?vs1 ?sz ?t ?cap (?hs ! j) (hs' ! j)"
    by blast
  have p': "p' = p\<lparr>m_vectors := ?vs2, m_tail := ?t', m_heads := hs',
               m_at_end := replicate (length ?hs) False\<rparr>"
    using a add by (simp add: add.assoc)
  have fitw: "?t + length (owner # ?n # es) \<le> length ?vs1" using f l1 by simp
  have l2: "length ?vs2 = length ?vs1" using fitw by (rule length_store)
  have same: "\<forall>j<length ?vs1. j < ?t \<or> ?t + ?cap \<le> j \<longrightarrow> ?vs2 ! j = ?vs1 ! j"
    using nth_store[OF fitw] by auto
  have "?vs2 ! (?t + 1) = ?n" using nth_store[OF fitw, of "?t + 1"] f l1 by simp
  then have e: "record_end ?vs2 ?t = ?t + ?cap" by (simp add: record_end_def)
  have c1: "chain ?vs1 ?t 0"
    using f by (intro chain_frame[OF f(4)]) (auto simp: vec_reserve_props)
  have ch: "chain ?vs2 ?t' 0"
  proof (cases "?sz \<le> ?t + ?cap")
    case True
    then show ?thesis by (simp add: chain_refl)
  next
    case False
    have "chain ?vs2 (?t + ?cap) 0" using write_chain_to[OF c1 same _ e] f l1 by simp
    then show ?thesis using False by simp
  qed
  have hd: "head_ok ?vs2 ?sz ?t' (hs' ! j) False" if "j < length ?hs" for j
  proof -
    have "pushed ?vs1 ?sz ?t ?cap (?hs ! j) (hs' ! j)" using r(2) that by simp
    from write_head_ok[OF this same f(1) l1(3) _ l2 e] f l1 show ?thesis by simp
  qed
  show ?thesis
    unfolding pool_inv_def p' using f(1) l1 l2 r(1) ch hd by simp
qed

lemma get_vector_eq:
  assumes inv: "pool_inv p" and c: "c < length (m_heads p)"
  shows "\<exists>r k h'. get_vector_loop c (m_heads p ! c) 0 p = Some (r, k, moved p c h') \<and>
           get_vector c p = Some (r, moved p c h') \<and> 2 * k \<le> m_size p + 1 \<and>
           fetch_ok (m_vectors p) (m_size p) (m_tail p) c (m_heads p ! c) r h' \<and>
           pool_inv (moved p c h')"
proof -
  let ?vs = "m_vectors p" and ?sz = "m_size p" and ?t = "m_tail p" and ?h = "m_heads p ! c"
  from inv have f: "?t < ?sz" "?sz \<le> length ?vs" "length ?vs < 4294967296"
    "length (m_at_end p) = length (m_heads p)" "chain ?vs ?t 0"
    and hd: "\<forall>i<length (m_heads p). head_ok ?vs ?sz ?t (m_heads p ! i) (m_at_end p ! i)"
    by (simp_all add: pool_inv_def)
  have hc: "head_ok ?vs ?sz ?t ?h (m_at_end p ! c)" using hd c by simp
  have "\<exists>r k h'. get_vector_loop c ?h 0 p = Some (r, k, moved p c h') \<and> 2 * k \<le> ?sz + 1 \<and>
           fetch_ok ?vs ?sz ?t c ?h r h' \<and> head_ok ?vs ?sz ?t h' (h' = ?t)"
  proof (cases "?h < ?t \<or> (?h = ?t \<and> m_at_end p ! c)")
    case True
    then have ch: "chain ?vs ?t ?h" using hc chain_le[of ?vs ?t ?h]
      by (auto simp: head_ok_def intro: chain_refl)
    have "\<exists>r k' h'. get_vector_loop c ?h 0 p = Some (r, k', moved p c h') \<and> 2 * k' \<le> 2 * 0 + (?t - ?h) \<and>
           fetch_ok ?vs ?sz ?t c ?h r h' \<and> head_ok ?vs ?sz ?t h' (h' = ?t)"
      using f c True by (intro get_vector_loop_chain[OF ch]) auto
    then obtain r k' h' where x: "get_vector_loop c ?h 0 p = Some (r, k', moved p c h')"
      "2 * k' \<le> 2 * 0 + (?t - ?h)" "fetch_ok ?vs ?sz ?t c ?h r h'" "head_ok ?vs ?sz ?t h' (h' = ?t)"
      by blast
    have "2 * k' \<le> ?sz + 1" using x(2) f(1) by simp
    with x show ?thesis by blast
  next
    case False
    then have w: "wraps ?vs ?sz ?h" "?t \<le> ?h" using hc by (auto simp: head_ok_def)
    have "\<exists>r k' h'. get_vector_loop c ?h 0 p = Some (r, k', moved p c h') \<and> 2 * k' \<le> 2 * 0 + (?sz - ?h) + 1 + ?t \<and>
           fetch_ok ?vs ?sz ?t c ?h r h' \<and> head_ok ?vs ?sz ?t h' (h' = ?t)"
      using f c w(2) by (intro get_vector_loop_wraps[OF w(1)]) auto
    then obtain r k' h' where x: "get_vector_loop c ?h 0 p = Some (r, k', moved p c h')"
      "2 * k' \<le> 2 * 0 + (?sz - ?h) + 1 + ?t" "fetch_ok ?vs ?sz ?t c ?h r h'" "head_ok ?vs ?sz ?t h' (h' = ?t)"
      by blast
    have "2 * k' \<le> ?sz + 1" using x(2) w(2) wraps_lt[OF w(1)] by simp
    with x show ?thesis by blast
  qed
  then obtain r k h' where x: "get_vector_loop c ?h 0 p = Some (r, k, moved p c h')" "2 * k \<le> ?sz + 1"
    "fetch_ok ?vs ?sz ?t c ?h r h'" "head_ok ?vs ?sz ?t h' (h' = ?t)"
    by blast
  have g: "get_vector c p = Some (r, moved p c h')"
    using x(1) c by (simp add: get_vector_def vec_get_def)
  have "head_ok ?vs ?sz ?t ((m_heads p)[c := h'] ! i) ((m_at_end p)[c := (h' = ?t)] ! i)"
    if "i < length (m_heads p)" for i
    using that hd x(4) f(4) by (cases "i = c") simp_all
  then have "pool_inv (moved p c h')" using f by (simp add: pool_inv_def)
  with x g show ?thesis by blast
qed

lemma reachable_inv: "reachable p \<Longrightarrow> pool_inv p"
proof (induction rule: reachable.induct)
  case (reach_reserve sz num_threads)
  then show ?case by (rule pool_inv_reserve)
next
  case (reach_add p es owner p')
  then show ?case by (auto intro: pool_inv_add_vector)
next
  case (reach_get p c r p')
  from reach_get.hyps(2) have c: "c < length (m_heads p)"
    by (auto simp: get_vector_def vec_get_def split: if_splits)
  from get_vector_eq[OF reach_get.IH c] reach_get.hyps(2) show ?case by auto
qed

section \<open>Exact results\<close>

lemma head_bounds:
  assumes "head_ok vs sz t h a" "h \<noteq> t \<or> \<not> a" "t < sz" "sz \<le> length vs"
  shows "h < sz \<and> h + 1 < length vs \<and> record_end vs h \<le> length vs"
proof -
  from assms(1,2) consider (behind) "h < t" "chain vs t h" | (ahead) "wraps vs sz h"
    by (auto simp: head_ok_def)
  then show ?thesis
  proof cases
    case behind
    from behind(2) behind(1) have "record_end vs h \<le> t" by (cases rule: chain.cases) auto
    then show ?thesis using assms(3,4) by (simp add: record_end_def)
  next
    case ahead
    then show ?thesis using assms(4) by (cases rule: wraps.cases) (auto simp: record_end_def)
  qed
qed

lemma add_vector_exact:
  assumes inv: "pool_inv p" and fit: "m_size p + length es + 2 < 4294967296"
    and out: "\<forall>j<length (m_heads p). \<not> (m_tail p < m_heads p ! j \<and> m_heads p ! j < m_tail p + length es + 2)"
  shows "add_vector owner es p =
      Some (p\<lparr>m_vectors := store (vec_reserve (m_vectors p) (m_size p + length es + 2) 0) (m_tail p)
                               (owner # length es # es),
               m_tail := (if m_size p \<le> m_tail p + length es + 2 then 0 else m_tail p + length es + 2),
               m_at_end := replicate (length (m_heads p)) False\<rparr>)"
proof -
  let ?vs1 = "vec_reserve (m_vectors p) (m_size p + length es + 2) 0"
  from add_vector_eq[OF inv fit, of owner] obtain hs' where
    a: "add_vector owner es p =
      Some (p\<lparr>m_vectors := store ?vs1 (m_tail p) (owner # length es # es),
               m_tail := (if m_size p \<le> m_tail p + length es + 2 then 0 else m_tail p + length es + 2),
               m_heads := hs',
               m_at_end := replicate (length (m_heads p)) False\<rparr>)"
    and r: "length hs' = length (m_heads p)"
      "\<forall>j<length (m_heads p). pushed ?vs1 (m_size p) (m_tail p) (length es + 2) (m_heads p ! j) (hs' ! j)"
    by blast
  have "hs' ! j = m_heads p ! j" if "j < length (m_heads p)" for j
    using r(2)[rule_format, OF that] out[rule_format, OF that] by (simp add: pushed_def add.assoc)
  then have "hs' = m_heads p" using r(1) by (intro nth_equalityI) auto
  with a show ?thesis by simp
qed

lemma begin_add_vector_exact:
  assumes inv: "pool_inv p" and fit: "m_size p + n + 2 < 4294967296"
    and out: "\<forall>j<length (m_heads p). \<not> (m_tail p < m_heads p ! j \<and> m_heads p ! j < m_tail p + n + 2)"
  shows "begin_add_vector owner n p =
      Some (p\<lparr>m_vectors := store (vec_reserve (m_vectors p) (m_size p + n + 2) 0) (m_tail p) [owner, n],
               m_tail := m_tail p + 2,
               m_at_end := replicate (length (m_heads p)) False\<rparr>)"
proof -
  let ?vs1 = "vec_reserve (m_vectors p) (m_size p + n + 2) 0"
  from begin_add_vector_eq[OF inv fit, of owner] obtain hs' where
    b: "begin_add_vector owner n p =
      Some (p\<lparr>m_vectors := store ?vs1 (m_tail p) [owner, n],
               m_tail := m_tail p + 2, m_heads := hs',
               m_at_end := replicate (length (m_heads p)) False\<rparr>)"
    and r: "length hs' = length (m_heads p)"
      "\<forall>j<length (m_heads p). pushed ?vs1 (m_size p) (m_tail p) (n + 2) (m_heads p ! j) (hs' ! j)"
    by blast
  have "hs' ! j = m_heads p ! j" if "j < length (m_heads p)" for j
    using r(2)[rule_format, OF that] out[rule_format, OF that] by (simp add: pushed_def add.assoc)
  then have "hs' = m_heads p" using r(1) by (intro nth_equalityI) auto
  with b show ?thesis by simp
qed

lemma get_vector_foreign:
  assumes inv: "pool_inv p" and c: "c < length (m_heads p)"
    and cont: "m_heads p ! c \<noteq> m_tail p \<or> \<not> m_at_end p ! c"
    and foreign: "m_vectors p ! (m_heads p ! c) \<noteq> c"
  shows "get_vector c p =
     Some (Vector (m_vectors p ! (m_heads p ! c + 1)) (m_heads p ! c + 2),
           moved p c (circ_next (m_vectors p) (m_size p) (m_heads p ! c)))"
proof -
  let ?h = "m_heads p ! c"
  from inv have f: "m_tail p < m_size p" "m_size p \<le> length (m_vectors p)"
    "length (m_vectors p) < 4294967296" "length (m_at_end p) = length (m_heads p)"
    and hd: "head_ok (m_vectors p) (m_size p) (m_tail p) ?h (m_at_end p ! c)"
    using c by (simp_all add: pool_inv_def)
  note b = head_bounds[OF hd cont f(1,2)]
  have "get_vector_loop c ?h 0 p =
     Some (Vector (m_vectors p ! (?h + 1)) (?h + 2), 0 + 1,
           moved p c (circ_next (m_vectors p) (m_size p) ?h))"
    using get_vector_loop_step[of ?h p c 0] cont c f b foreign by (simp add: moved_def)
  then show ?thesis using c by (simp add: get_vector_def vec_get_def)
qed

section \<open>The general statements\<close>

lemma take_drop_store_payload:
  "t + length (a # b # es) \<le> length vs \<Longrightarrow>
   take (length es) (drop (t + 2) (store vs t (a # b # es))) = es"
  by (simp add: store_def)

lemma add_vector_contiguous_aux:
  assumes inv: "pool_inv p" and fit: "m_size p + length es + 2 < 4294967296"
  shows "\<exists>p'. add_vector owner es p = Some p' \<and>
     m_tail p < m_size p \<and>
     m_tail p + 2 + length es \<le> length (m_vectors p') \<and>
     take (2 + length es) (drop (m_tail p) (m_vectors p')) = owner # length es # es \<and>
     length (m_vectors p') = max (length (m_vectors p)) (m_size p + 2 + length es) \<and>
     m_size p' = m_size p \<and>
     m_tail p' = (if m_size p \<le> m_tail p + 2 + length es then 0 else m_tail p + 2 + length es)"
proof -
  let ?vs1 = "vec_reserve (m_vectors p) (m_size p + length es + 2) 0"
  let ?ws = "owner # length es # es"
  from inv have f: "m_tail p < m_size p" "m_size p \<le> length (m_vectors p)"
    by (simp_all add: pool_inv_def)
  have l1: "length ?vs1 = max (length (m_vectors p)) (m_size p + length es + 2)"
    by (simp add: vec_reserve_props(3))
  have fitw: "m_tail p + length ?ws \<le> length ?vs1" using f l1 by simp
  from add_vector_eq[OF inv fit, of owner] obtain hs' where
    a: "add_vector owner es p =
      Some (p\<lparr>m_vectors := store ?vs1 (m_tail p) ?ws,
               m_tail := (if m_size p \<le> m_tail p + length es + 2 then 0 else m_tail p + length es + 2),
               m_heads := hs',
               m_at_end := replicate (length (m_heads p)) False\<rparr>)"
    by blast
  have t: "take (2 + length es) (drop (m_tail p) (store ?vs1 (m_tail p) ?ws)) = ?ws"
    using take_drop_store[OF fitw] by simp
  have l2: "length (store ?vs1 (m_tail p) ?ws) = length ?vs1" using fitw by (rule length_store)
  show ?thesis
    unfolding a using f(1) t l1 l2 fitw by (simp add: add.commute add.left_commute)
qed

lemma passes_frame:
  "passes vs1 sz h h' \<Longrightarrow> wraps vs sz h \<Longrightarrow> \<forall>j<length vs. vs1 ! j = vs ! j \<Longrightarrow>
   sz \<le> length vs \<Longrightarrow> passes vs sz h h'"
proof (induction rule: passes.induct)
  case (passes_refl h)
  show ?case by (rule passes.passes_refl)
next
  case (passes_step h h')
  from passes_step.prems(1) have "h + 1 < length vs"
    using passes_step.prems(3) by (cases rule: wraps.cases) (auto simp: record_end_def)
  then have e: "record_end vs1 h = record_end vs h"
    using passes_step.prems(2) by (simp add: record_end_def)
  from passes_step.prems(1) have "wraps vs sz (record_end vs h)"
    using passes_step.hyps(1) e by (cases rule: wraps.cases) auto
  then have "passes vs sz (record_end vs h) h'"
    using passes_step.IH passes_step.prems(2,3) e by simp
  then show ?case using passes_step.hyps(1) e by (auto intro: passes.passes_step)
next
  case (passes_wrap h)
  from passes_wrap.prems(1) have "h + 1 < length vs"
    using passes_wrap.prems(3) by (cases rule: wraps.cases) (auto simp: record_end_def)
  then have "record_end vs1 h = record_end vs h"
    using passes_wrap.prems(2) by (simp add: record_end_def)
  then show ?case using passes_wrap.hyps by (auto intro: passes.passes_wrap)
qed

lemma begin_add_vector_cursors_aux:
  assumes inv: "pool_inv p" and fit: "m_size p + n + 2 < 4294967296"
  shows "\<exists>p'. begin_add_vector owner n p = Some p' \<and>
     length (m_heads p') = length (m_heads p) \<and> length (m_at_end p') = length (m_heads p) \<and>
     (\<forall>i<length (m_heads p).
        \<not> m_at_end p' ! i \<and>
        \<not> (m_tail p < m_heads p' ! i \<and> m_heads p' ! i < m_tail p + n + 2) \<and>
        (\<not> (m_tail p < m_heads p ! i \<and> m_heads p ! i < m_tail p + n + 2) \<longrightarrow>
           m_heads p' ! i = m_heads p ! i) \<and>
        (m_heads p' ! i = 0 \<or> m_heads p ! i \<le> m_heads p' ! i) \<and>
        passes (m_vectors p) (m_size p) (m_heads p ! i) (m_heads p' ! i))"
proof -
  let ?vs1 = "vec_reserve (m_vectors p) (m_size p + n + 2) 0"
  from inv have f: "m_size p \<le> length (m_vectors p)"
    and hd: "\<forall>i<length (m_heads p).
      head_ok (m_vectors p) (m_size p) (m_tail p) (m_heads p ! i) (m_at_end p ! i)"
    by (simp_all add: pool_inv_def)
  from begin_add_vector_eq[OF inv fit, of owner] obtain hs' where
    b: "begin_add_vector owner n p =
      Some (p\<lparr>m_vectors := store ?vs1 (m_tail p) [owner, n],
               m_tail := m_tail p + 2, m_heads := hs',
               m_at_end := replicate (length (m_heads p)) False\<rparr>)"
    and r: "length hs' = length (m_heads p)"
      "\<forall>j<length (m_heads p). pushed ?vs1 (m_size p) (m_tail p) (n + 2) (m_heads p ! j) (hs' ! j)"
    by blast
  have "\<not> (m_tail p < hs' ! i \<and> hs' ! i < m_tail p + n + 2) \<and>
        (\<not> (m_tail p < m_heads p ! i \<and> m_heads p ! i < m_tail p + n + 2) \<longrightarrow> hs' ! i = m_heads p ! i) \<and>
        (hs' ! i = 0 \<or> m_heads p ! i \<le> hs' ! i) \<and>
        passes (m_vectors p) (m_size p) (m_heads p ! i) (hs' ! i)" if i: "i < length (m_heads p)" for i
  proof -
    note pu = r(2)[rule_format, OF i]
    have ps: "passes (m_vectors p) (m_size p) (m_heads p ! i) (hs' ! i)"
    proof (cases "m_tail p < m_heads p ! i")
      case True
      then have w: "wraps (m_vectors p) (m_size p) (m_heads p ! i)"
        using hd[rule_format, OF i] by (auto simp: head_ok_def)
      have "passes ?vs1 (m_size p) (m_heads p ! i) (hs' ! i)" using pu by (simp add: pushed_def)
      from passes_frame[OF this w _ f] show ?thesis by (simp add: vec_reserve_props(4))
    next
      case False
      then have "hs' ! i = m_heads p ! i" using pu by (simp add: pushed_def)
      then show ?thesis by (simp add: passes_refl)
    qed
    with pu show ?thesis by (simp add: pushed_def add.assoc)
  qed
  then show ?thesis unfolding b using r(1) by simp
qed

lemma round_trip_aux:
  assumes inv: "pool_inv p" and fit: "m_size p + length es + 2 < 4294967296"
    and c: "c < length (m_heads p)" "c \<noteq> owner" and at: "m_heads p ! c = m_tail p"
  shows "\<exists>p1 p2. add_vector owner es p = Some p1 \<and>
     get_vector c p1 = Some (Vector (length es) (m_tail p + 2), p2) \<and>
     read_vector p2 (length es) (m_tail p + 2) = Some es"
proof -
  let ?t = "m_tail p" and ?n = "length es"
  let ?vs1 = "vec_reserve (m_vectors p) (m_size p + ?n + 2) 0"
  let ?ws = "owner # ?n # es"
  let ?vs2 = "store ?vs1 ?t ?ws"
  from inv have f: "?t < m_size p" "m_size p \<le> length (m_vectors p)"
    by (simp_all add: pool_inv_def)
  have fitw: "?t + length ?ws \<le> length ?vs1" using f by (simp add: vec_reserve_props(3))
  from add_vector_eq[OF inv fit, of owner] obtain hs' where
    a: "add_vector owner es p =
      Some (p\<lparr>m_vectors := ?vs2,
               m_tail := (if m_size p \<le> ?t + ?n + 2 then 0 else ?t + ?n + 2),
               m_heads := hs',
               m_at_end := replicate (length (m_heads p)) False\<rparr>)"
    and r: "length hs' = length (m_heads p)"
      "\<forall>j<length (m_heads p). pushed ?vs1 (m_size p) ?t (?n + 2) (m_heads p ! j) (hs' ! j)"
    by blast
  let ?p1 = "p\<lparr>m_vectors := ?vs2,
               m_tail := (if m_size p \<le> ?t + ?n + 2 then 0 else ?t + ?n + 2),
               m_heads := hs',
               m_at_end := replicate (length (m_heads p)) False\<rparr>"
  have inv1: "pool_inv ?p1" using pool_inv_add_vector[OF inv fit a] .
  have hc: "hs' ! c = ?t" using r(2)[rule_format, OF c(1)] at by (simp add: pushed_def)
  have l2: "length ?vs2 = length ?vs1" using fitw by (rule length_store)
  have v0: "?vs2 ! ?t = owner" using nth_store[OF fitw, of ?t] fitw by simp
  have v1: "?vs2 ! (?t + 1) = ?n" using nth_store[OF fitw, of "?t + 1"] fitw by simp
  have cn: "circ_next ?vs2 (m_size p) ?t = (if m_size p \<le> ?t + ?n + 2 then 0 else ?t + ?n + 2)"
    using v1 by (simp add: circ_next_def record_end_def add.commute add.left_commute)
  have g: "get_vector c ?p1 =
     Some (Vector (m_vectors ?p1 ! (m_heads ?p1 ! c + 1)) (m_heads ?p1 ! c + 2),
           moved ?p1 c (circ_next (m_vectors ?p1) (m_size ?p1) (m_heads ?p1 ! c)))"
    using c r(1) hc v0 by (intro get_vector_foreign[OF inv1]) auto
  let ?p2 = "moved ?p1 c (circ_next ?vs2 (m_size p) ?t)"
  have g': "get_vector c ?p1 = Some (Vector ?n (?t + 2), ?p2)"
    using g hc v1 by simp
  have "read_vector ?p2 ?n (?t + 2) = Some es"
    using fitw l2 take_drop_store_payload[OF fitw] by (simp add: read_vector_def)
  with a g' show ?thesis by blast
qed

section \<open>The scenario with a full buffer\<close>

lemma reserve_2_10:
  "reserve 2 10 = \<lparr>m_vectors = [0, 0, 0, 0, 0, 0, 0, 0, 0, 0], m_size = 10, m_tail = 0,
     m_heads = [0, 0], m_at_end = [True, True]\<rparr>"
  by (simp add: reserve_def vec_resize_def numeral_eq_Suc)

lemma replicate_num: "replicate (numeral k) x = x # replicate (pred_numeral k) x"
  by (simp add: numeral_eq_Suc)

lemma reachable_reserve_2_10: "reachable (reserve 2 10)"
  by (rule reach_reserve) simp_all

lemma scenario_first_write: "add_vector 0 [11, 12, 13, 14, 15, 16] (reserve 2 10) = Some pool_c1"
proof -
  have inv: "pool_inv (reserve 2 10)" using reachable_reserve_2_10 by (rule reachable_inv)
  have "add_vector 0 [11, 12, 13, 14, 15, 16] (reserve 2 10) = Some
     ((reserve 2 10)\<lparr>m_vectors := store (vec_reserve (m_vectors (reserve 2 10))
           (m_size (reserve 2 10) + length [11, 12, 13, 14, 15, 16::nat] + 2) 0) (m_tail (reserve 2 10))
             (0 # length [11, 12, 13, 14, 15, 16::nat] # [11, 12, 13, 14, 15, 16]),
        m_tail := (if m_size (reserve 2 10) \<le> m_tail (reserve 2 10) + length [11, 12, 13, 14, 15, 16::nat] + 2
                   then 0 else m_tail (reserve 2 10) + length [11, 12, 13, 14, 15, 16::nat] + 2),
        m_at_end := replicate (length (m_heads (reserve 2 10))) False\<rparr>)"
    by (rule add_vector_exact[OF inv]) (auto simp: reserve_2_10 less_Suc_eq)
  also have "\<dots> = Some pool_c1"
    unfolding reserve_2_10
    by (simp add: pool_c1_def store_def vec_reserve_def vec_resize_def replicate_num)
  finally show ?thesis .
qed

lemma reachable_pool_c1: "reachable pool_c1"
  by (rule reach_add[OF reachable_reserve_2_10 _ scenario_first_write]) (simp add: reserve_def)

lemma scenario_second_write: "add_vector 0 [21, 22] pool_c1 = Some pool_c2"
proof -
  have inv: "pool_inv pool_c1" using reachable_pool_c1 by (rule reachable_inv)
  have "add_vector 0 [21, 22] pool_c1 = Some
     (pool_c1\<lparr>m_vectors := store (vec_reserve (m_vectors pool_c1)
           (m_size pool_c1 + length [21, 22::nat] + 2) 0) (m_tail pool_c1)
             (0 # length [21, 22::nat] # [21, 22]),
        m_tail := (if m_size pool_c1 \<le> m_tail pool_c1 + length [21, 22::nat] + 2
                   then 0 else m_tail pool_c1 + length [21, 22::nat] + 2),
        m_at_end := replicate (length (m_heads pool_c1)) False\<rparr>)"
    by (rule add_vector_exact[OF inv]) (auto simp: pool_c1_def less_Suc_eq)
  also have "\<dots> = Some pool_c2"
    by (simp add: pool_c1_def pool_c2_def store_def vec_reserve_def vec_resize_def replicate_num)
  finally show ?thesis .
qed

lemma reachable_pool_c2: "reachable pool_c2"
  by (rule reach_add[OF reachable_pool_c1 _ scenario_second_write]) (simp add: pool_c1_def)

lemma scenario_read: "get_vector 1 pool_c2 = Some (Vector 6 2, pool_c3)"
proof -
  have inv: "pool_inv pool_c2" using reachable_pool_c2 by (rule reachable_inv)
  have "get_vector 1 pool_c2 =
     Some (Vector (m_vectors pool_c2 ! (m_heads pool_c2 ! 1 + 1)) (m_heads pool_c2 ! 1 + 2),
           moved pool_c2 1 (circ_next (m_vectors pool_c2) (m_size pool_c2) (m_heads pool_c2 ! 1)))"
    by (rule get_vector_foreign[OF inv]) (simp_all add: pool_c2_def)
  also have "\<dots> = Some (Vector 6 2, pool_c3)"
    by (simp add: pool_c2_def pool_c3_def moved_def circ_next_def record_end_def)
  finally show ?thesis .
qed

lemma scenario_payload: "read_vector pool_c3 6 2 = Some [11, 12, 13, 14, 15, 16]"
  by (simp add: read_vector_def pool_c3_def)

lemma scenario_own_read_loop: "get_vector_loop 0 0 0 pool_c2 = Some (No_vector, 2, pool_c4)"
proof -
  let ?vs = "[0, 6, 11, 12, 13, 14, 15, 16, 0, 2, 21, 22, 0, 0, 0, 0, 0, 0::nat]"
  let ?q = "\<lparr>m_vectors = ?vs, m_size = 10, m_tail = 0, m_heads = [8, 0], m_at_end = [False, False]\<rparr>"
  have 1: "get_vector_loop 0 0 0 pool_c2 = get_vector_loop 0 8 (Suc 0) ?q"
    using get_vector_loop_step[of 0 pool_c2 0 0]
    by (simp add: pool_c2_def circ_next_def record_end_def)
  have 2: "get_vector_loop 0 8 (Suc 0) ?q = get_vector_loop 0 0 (Suc (Suc 0)) pool_c4"
    using get_vector_loop_step[of 8 ?q 0 "Suc 0"]
    by (simp add: pool_c4_def circ_next_def record_end_def)
  have "get_vector_loop 0 0 (Suc (Suc 0)) pool_c4 = Some (No_vector, Suc (Suc 0), pool_c4)"
    by (rule get_vector_loop_stop) (simp_all add: pool_c4_def)
  then have 3: "get_vector_loop 0 0 (Suc (Suc 0)) pool_c4 = Some (No_vector, 2, pool_c4)"
    by (simp add: numeral_2_eq_2)
  show ?thesis unfolding 1 2 3 by (rule refl)
qed


section \<open>A scenario in which a cursor is advanced\<close>

lemma pushing_write_1: "add_vector 0 [1, 2] (reserve 2 10) = Some pool_d1"
proof -
  have inv: "pool_inv (reserve 2 10)" using reachable_reserve_2_10 by (rule reachable_inv)
  have "add_vector 0 [1, 2] (reserve 2 10) = Some
     ((reserve 2 10)\<lparr>m_vectors := store (vec_reserve (m_vectors (reserve 2 10))
           (m_size (reserve 2 10) + length [1, 2::nat] + 2) 0) (m_tail (reserve 2 10))
             (0 # length [1, 2::nat] # [1, 2]),
        m_tail := (if m_size (reserve 2 10) \<le> m_tail (reserve 2 10) + length [1, 2::nat] + 2
                   then 0 else m_tail (reserve 2 10) + length [1, 2::nat] + 2),
        m_at_end := replicate (length (m_heads (reserve 2 10))) False\<rparr>)"
    by (rule add_vector_exact[OF inv]) (auto simp: reserve_2_10 less_Suc_eq)
  also have "\<dots> = Some pool_d1"
    unfolding reserve_2_10
    by (simp add: pool_d1_def store_def vec_reserve_def vec_resize_def replicate_num)
  finally show ?thesis .
qed

lemma reachable_pool_d1: "reachable pool_d1"
  by (rule reach_add[OF reachable_reserve_2_10 _ pushing_write_1]) (simp add: reserve_def)

lemma pushing_write_2: "add_vector 0 [3, 4] pool_d1 = Some pool_d2"
proof -
  have inv: "pool_inv pool_d1" using reachable_pool_d1 by (rule reachable_inv)
  have "add_vector 0 [3, 4] pool_d1 = Some
     (pool_d1\<lparr>m_vectors := store (vec_reserve (m_vectors pool_d1)
           (m_size pool_d1 + length [3, 4::nat] + 2) 0) (m_tail pool_d1)
             (0 # length [3, 4::nat] # [3, 4]),
        m_tail := (if m_size pool_d1 \<le> m_tail pool_d1 + length [3, 4::nat] + 2
                   then 0 else m_tail pool_d1 + length [3, 4::nat] + 2),
        m_at_end := replicate (length (m_heads pool_d1)) False\<rparr>)"
    by (rule add_vector_exact[OF inv]) (auto simp: pool_d1_def less_Suc_eq)
  also have "\<dots> = Some pool_d2"
    by (simp add: pool_d1_def pool_d2_def store_def vec_reserve_def vec_resize_def replicate_num)
  finally show ?thesis .
qed

lemma reachable_pool_d2: "reachable pool_d2"
  by (rule reach_add[OF reachable_pool_d1 _ pushing_write_2]) (simp add: pool_d1_def)

lemma pushing_read: "get_vector 1 pool_d2 = Some (Vector 2 2, pool_d3)"
proof -
  have inv: "pool_inv pool_d2" using reachable_pool_d2 by (rule reachable_inv)
  have "get_vector 1 pool_d2 =
     Some (Vector (m_vectors pool_d2 ! (m_heads pool_d2 ! 1 + 1)) (m_heads pool_d2 ! 1 + 2),
           moved pool_d2 1 (circ_next (m_vectors pool_d2) (m_size pool_d2) (m_heads pool_d2 ! 1)))"
    by (rule get_vector_foreign[OF inv]) (simp_all add: pool_d2_def)
  also have "\<dots> = Some (Vector 2 2, pool_d3)"
    by (simp add: pool_d2_def pool_d3_def moved_def circ_next_def record_end_def)
  finally show ?thesis .
qed

lemma reachable_pool_d3: "reachable pool_d3"
  by (rule reach_get[OF reachable_pool_d2 pushing_read])

lemma pushing_write_3: "add_vector 0 [5, 6, 7, 8] pool_d3 = Some pool_d4"
proof -
  have inv: "pool_inv pool_d3" using reachable_pool_d3 by (rule reachable_inv)
  have "add_vector 0 [5, 6, 7, 8] pool_d3 = Some
     (pool_d3\<lparr>m_vectors := store (vec_reserve (m_vectors pool_d3)
           (m_size pool_d3 + length [5, 6, 7, 8::nat] + 2) 0) (m_tail pool_d3)
             (0 # length [5, 6, 7, 8::nat] # [5, 6, 7, 8]),
        m_tail := (if m_size pool_d3 \<le> m_tail pool_d3 + length [5, 6, 7, 8::nat] + 2
                   then 0 else m_tail pool_d3 + length [5, 6, 7, 8::nat] + 2),
        m_at_end := replicate (length (m_heads pool_d3)) False\<rparr>)"
    by (rule add_vector_exact[OF inv]) (auto simp: pool_d3_def less_Suc_eq)
  also have "\<dots> = Some pool_d4"
    by (simp add: pool_d3_def pool_d4_def store_def vec_reserve_def vec_resize_def replicate_num)
  finally show ?thesis .
qed

lemma reachable_pool_d4: "reachable pool_d4"
  by (rule reach_add[OF reachable_pool_d3 _ pushing_write_3]) (simp add: pool_d3_def)

lemma pushing_begin: "begin_add_vector 0 3 pool_d4 = Some pool_d5"
proof -
  let ?p = "pool_d4\<lparr>m_vectors := vec_reserve (m_vectors pool_d4) (u32 (m_size pool_d4 + u32 (3 + 2))) 0\<rparr>"
  have e: "?p = pool_d4" by (simp add: pool_d4_def vec_reserve_def u32_def)
  have a0: "advance_head 5 0 pool_d4 = Some pool_d4"
    by (rule advance_head_stop) (simp_all add: pool_d4_def)
  let ?q = "pool_d4\<lparr>m_at_end := [False, False]\<rparr>"
  have q: "?q = pool_d4" by (simp add: pool_d4_def)
  have n: "next_index pool_d4 4 = Some 8"
    by (simp add: next_index_def get_length_def vec_get_def u32_def pool_d4_def)
  have h1: "m_heads pool_d4 ! 1 = 4" by (simp add: pool_d4_def)
  have n': "next_index pool_d4 (m_heads pool_d4 ! 1) = Some 8" unfolding h1 by (rule n)
  have a1: "advance_head 5 1 pool_d4 = advance_head 5 1 (pool_d4\<lparr>m_heads := (m_heads pool_d4)[1 := 8]\<rparr>)"
    by (rule advance_head_step[OF _ _ _ n']) (simp_all add: pool_d4_def u32_def)
  have a2: "advance_head 5 1 (pool_d4\<lparr>m_heads := (m_heads pool_d4)[1 := 8]\<rparr>)
     = Some (pool_d4\<lparr>m_heads := (m_heads pool_d4)[1 := 8]\<rparr>)"
    by (rule advance_head_stop) (simp_all add: pool_d4_def u32_def)
  have hs: "advance_heads 5 [0, 1] pool_d4 = Some (pool_d4\<lparr>m_heads := [0, 8]\<rparr>)"
    using a0 a1 a2 by (simp add: vec_set_def) (simp add: pool_d4_def)
  have u: "u32 (3 + 2) = 5" by (simp add: u32_def)
  have l: "[0..<length (m_heads ?p)] = [0, 1]" by (simp add: pool_d4_def upt_rec)
  have c: "m_tail pool_d4 < m_size pool_d4" by (simp add: pool_d4_def)
  note d = begin_add_vector_def[of 0 3 pool_d4, unfolded Let_def, unfolded l, unfolded e, unfolded u]
  have "begin_add_vector 0 3 pool_d4 =
     advance_heads 5 [0, 1] pool_d4 \<bind> (\<lambda>p2. put_word 0 p2 \<bind> put_word 3)"
    using d c by (simp only: not_True_eq_False if_False simp_thms)
  also have "\<dots> = Some pool_d5"
    unfolding hs by (simp add: put_word_def vec_set_def u32_def pool_d4_def pool_d5_def)
  finally show ?thesis .
qed

section \<open>Records in the buffer\<close>

text \<open>
  C1 (amended): in every pool reached from \<open>reserve\<close> by complete writes and reads, a complete
  write of a record that the vector can hold succeeds; the record occupies the contiguous span
  from the write position \<open>pos\<close> found on entry, \<open>pos < size\<close>, to \<open>pos + 2 + len\<close>, inside
  the vector, which has been grown to at least \<open>size + 2 + len\<close> words, so that the span may run
  past \<open>size\<close>; the write position is reset to \<open>0\<close> after the record has been written, when it
  has reached or passed \<open>size\<close>. No record is split in two.
\<close>

theorem add_vector_contiguous:
  assumes "reachable p" and "m_size p + length es + 2 < 4294967296"
  shows "\<exists>p'. add_vector owner es p = Some p' \<and>
     m_tail p < m_size p \<and>
     m_tail p + 2 + length es \<le> length (m_vectors p') \<and>
     take (2 + length es) (drop (m_tail p) (m_vectors p')) = owner # length es # es \<and>
     length (m_vectors p') = max (length (m_vectors p)) (m_size p + 2 + length es) \<and>
     m_size p' = m_size p \<and>
     m_tail p' = (if m_size p \<le> m_tail p + 2 + length es then 0 else m_tail p + 2 + length es)"
  using add_vector_contiguous_aux[OF reachable_inv[OF assms(1)] assms(2)] .

text \<open>
  The theorem on the pool of size 10 whose write position is 8: the record of payload length 2
  is written from position 8 on, the vector has 18 words, and the write position becomes 0.
\<close>

theorem add_vector_contiguous_witness:
  "reachable pool_c1 \<and> m_size pool_c1 + length [21, 22::nat] + 2 < 4294967296 \<and>
   (\<exists>p'. add_vector 0 [21, 22] pool_c1 = Some p' \<and>
     8 + 2 + 2 \<le> length (m_vectors p') \<and>
     take 4 (drop 8 (m_vectors p')) = [0, 2, 21, 22] \<and>
     length (m_vectors p') = 18 \<and> m_size p' = 10 \<and> m_tail p' = 0)"
proof -
  have fit: "m_size pool_c1 + length [21, 22::nat] + 2 < 4294967296" by (simp add: pool_c1_def)
  from add_vector_contiguous[OF reachable_pool_c1 fit, of 0]
  obtain p' where p': "add_vector 0 [21, 22] pool_c1 = Some p'"
    "m_tail pool_c1 + 2 + length [21, 22::nat] \<le> length (m_vectors p')"
    "take (2 + length [21, 22::nat]) (drop (m_tail pool_c1) (m_vectors p')) = 0 # length [21, 22::nat] # [21, 22]"
    "length (m_vectors p') = max (length (m_vectors pool_c1)) (m_size pool_c1 + 2 + length [21, 22::nat])"
    "m_size p' = m_size pool_c1"
    "m_tail p' = (if m_size pool_c1 \<le> m_tail pool_c1 + 2 + length [21, 22::nat] then 0
                 else m_tail pool_c1 + 2 + length [21, 22::nat])"
    by blast
  have "8 + 2 + 2 \<le> length (m_vectors p')" using p'(2) by (simp add: pool_c1_def)
  moreover have "take 4 (drop 8 (m_vectors p')) = [0, 2, 21, 22]" using p'(3) by (simp add: pool_c1_def)
  moreover have "length (m_vectors p') = 18" using p'(4) by (simp add: pool_c1_def)
  moreover have "m_size p' = 10" using p'(5) by (simp add: pool_c1_def)
  moreover have "m_tail p' = 0" using p'(6) by (simp add: pool_c1_def)
  ultimately show ?thesis using reachable_pool_c1 fit p'(1) by blast
qed

text \<open>
  C1 as stated fails after \<open>reserve(2, 10)\<close> and a record of payload length 6: the next record,
  of payload length 2, is written at position 8 and occupies the words 8 to 11 of a buffer of
  size 10; the write position was not reset before the record was written.
\<close>

theorem record_past_size_counterexample:
  "add_vector 0 [11, 12, 13, 14, 15, 16] (reserve 2 10) = Some pool_c1 \<and>
   m_tail pool_c1 = 8 \<and>
   add_vector 0 [21, 22] pool_c1 = Some pool_c2 \<and>
   take 4 (drop 8 (m_vectors pool_c2)) = [0, 2, 21, 22] \<and>
   \<not> 8 + 2 + 2 \<le> m_size pool_c2"
  using scenario_first_write scenario_second_write by (simp add: pool_c1_def pool_c2_def)

text \<open>
  C2 (amended): in every reachable pool, \<open>begin_add_vector(owner, n)\<close> clears the at-tail flag
  of every consumer; a read cursor strictly inside the span, \<open>tail < cursor < tail + n + 2\<close>, is
  advanced by whole records (\<open>passes\<close>) to a position that is not strictly inside it, and
  that is \<open>0\<close> or not before the old position; every other cursor, one equal to \<open>tail\<close>
  included, stays where it is.
\<close>

theorem begin_add_vector_cursors:
  assumes "reachable p" and "m_size p + n + 2 < 4294967296"
  shows "\<exists>p'. begin_add_vector owner n p = Some p' \<and>
     length (m_heads p') = length (m_heads p) \<and> length (m_at_end p') = length (m_heads p) \<and>
     (\<forall>i<length (m_heads p).
        \<not> m_at_end p' ! i \<and>
        \<not> (m_tail p < m_heads p' ! i \<and> m_heads p' ! i < m_tail p + n + 2) \<and>
        (\<not> (m_tail p < m_heads p ! i \<and> m_heads p ! i < m_tail p + n + 2) \<longrightarrow>
           m_heads p' ! i = m_heads p ! i) \<and>
        (m_heads p' ! i = 0 \<or> m_heads p ! i \<le> m_heads p' ! i) \<and>
        passes (m_vectors p) (m_size p) (m_heads p ! i) (m_heads p' ! i))"
  using begin_add_vector_cursors_aux[OF reachable_inv[OF assms(1)] assms(2)] .

text \<open>
  The theorem on a pool whose write cursor is \<open>0\<close> while consumer 1 has its cursor at the
  record that starts at 4, for \<open>n = 3\<close>: the span is 0 to 5, the cursor of consumer 1 is
  advanced to the next record, at 8, and the cursor of consumer 0, which is \<open>0\<close>, stays.
\<close>

theorem begin_add_vector_cursors_witness:
  "reachable pool_d4 \<and> m_size pool_d4 + 3 + 2 < 4294967296 \<and>
   m_tail pool_d4 = 0 \<and> m_heads pool_d4 ! 0 = 0 \<and> m_heads pool_d4 ! 1 = 4 \<and>
   (\<exists>p'. begin_add_vector 0 3 pool_d4 = Some p' \<and> length (m_heads p') = 2 \<and>
      \<not> m_at_end p' ! 0 \<and> \<not> m_at_end p' ! 1 \<and> m_heads p' ! 0 = 0 \<and> m_heads p' ! 1 = 8 \<and>
      \<not> (0 < m_heads p' ! 1 \<and> m_heads p' ! 1 < 0 + 3 + 2))"
proof -
  have fit: "m_size pool_d4 + 3 + 2 < 4294967296" by (simp add: pool_d4_def)
  have st: "m_tail pool_d4 = 0" "m_heads pool_d4 ! 0 = 0" "m_heads pool_d4 ! 1 = 4"
    "length (m_heads pool_d4) = 2"
    by (simp_all add: pool_d4_def)
  from begin_add_vector_cursors[OF reachable_pool_d4 fit, of 0]
  obtain p' where p': "begin_add_vector 0 3 pool_d4 = Some p'"
    "length (m_heads p') = length (m_heads pool_d4)"
    and each: "\<forall>i<length (m_heads pool_d4).
        \<not> m_at_end p' ! i \<and>
        \<not> (m_tail pool_d4 < m_heads p' ! i \<and> m_heads p' ! i < m_tail pool_d4 + 3 + 2) \<and>
        (\<not> (m_tail pool_d4 < m_heads pool_d4 ! i \<and> m_heads pool_d4 ! i < m_tail pool_d4 + 3 + 2) \<longrightarrow>
           m_heads p' ! i = m_heads pool_d4 ! i) \<and>
        (m_heads p' ! i = 0 \<or> m_heads pool_d4 ! i \<le> m_heads p' ! i)"
    by blast
  have p5: "p' = pool_d5" using p'(1) pushing_begin by simp
  have e0: "\<not> m_at_end p' ! 0 \<and> m_heads p' ! 0 = 0" using each[rule_format, of 0] st by simp
  have e1: "\<not> m_at_end p' ! 1 \<and> \<not> (0 < m_heads p' ! 1 \<and> m_heads p' ! 1 < 0 + 3 + 2)"
    using each[rule_format, of 1] st by simp
  have h8: "m_heads p' ! 1 = 8" unfolding p5 by (simp add: pool_d5_def)
  have l2: "length (m_heads p') = 2" using p'(2) st(4) by simp
  show ?thesis using reachable_pool_d4 fit st(1,2,3) p'(1) l2 e0 e1 h8 by blast
qed

text \<open>
  C2 as stated fails right after \<open>reserve(2, 10)\<close>: both read cursors are \<open>0\<close>, equal to the
  write position and so inside the span from 0 to 4 of the record announced, and
  \<open>begin_add_vector(0, 2)\<close> leaves them at \<open>0\<close>.
\<close>

theorem cursor_at_tail_counterexample:
  "m_heads (reserve 2 10) = [0, 0] \<and> m_tail (reserve 2 10) = 0 \<and>
   begin_add_vector 0 2 (reserve 2 10) =
     Some \<lparr>m_vectors = [0, 2, 0, 0, 0, 0, 0, 0, 0, 0, 0, 0, 0, 0], m_size = 10, m_tail = 2,
            m_heads = [0, 0], m_at_end = [False, False]\<rparr>"
proof -
  have inv: "pool_inv (reserve 2 10)" using reachable_reserve_2_10 by (rule reachable_inv)
  have "begin_add_vector 0 2 (reserve 2 10) =
      Some ((reserve 2 10)\<lparr>m_vectors := store (vec_reserve (m_vectors (reserve 2 10))
                 (m_size (reserve 2 10) + 2 + 2) 0) (m_tail (reserve 2 10)) [0, 2],
               m_tail := m_tail (reserve 2 10) + 2,
               m_at_end := replicate (length (m_heads (reserve 2 10))) False\<rparr>)"
    by (rule begin_add_vector_exact[OF inv]) (auto simp: reserve_2_10 less_Suc_eq)
  also have "\<dots> = Some \<lparr>m_vectors = [0, 2, 0, 0, 0, 0, 0, 0, 0, 0, 0, 0, 0, 0], m_size = 10, m_tail = 2,
            m_heads = [0, 0], m_at_end = [False, False]\<rparr>"
    unfolding reserve_2_10
    by (simp add: store_def vec_reserve_def vec_resize_def replicate_num)
  finally show ?thesis by (simp add: reserve_2_10)
qed

section \<open>Reading what was written\<close>

text \<open>
  C4: in a reachable pool where the cursor of consumer \<open>c\<close> equals the write cursor, a complete
  write by an owner other than \<open>c\<close> of a record the vector can hold, followed by
  \<open>get_vector(c)\<close>, returns a record of exactly the length written, whose words are the words
  written, in order.
\<close>

theorem round_trip:
  assumes "reachable p" and "m_size p + length es + 2 < 4294967296"
    and "c < length (m_heads p)" and "c \<noteq> owner" and "m_heads p ! c = m_tail p"
  shows "\<exists>p1 p2. add_vector owner es p = Some p1 \<and>
     get_vector c p1 = Some (Vector (length es) (m_tail p + 2), p2) \<and>
     read_vector p2 (length es) (m_tail p + 2) = Some es"
  using round_trip_aux[OF reachable_inv[OF assms(1)] assms(2-5)] .

text \<open>The theorem right after \<open>reserve(3, 100)\<close>, for owner 0, three words and consumer 2.\<close>

theorem round_trip_witness:
  "reachable (reserve 3 100) \<and> m_size (reserve 3 100) + length [7, 8, 9::nat] + 2 < 4294967296 \<and>
   2 < length (m_heads (reserve 3 100)) \<and> (2::nat) \<noteq> 0 \<and>
   m_heads (reserve 3 100) ! 2 = m_tail (reserve 3 100) \<and>
   (\<exists>p1 p2. add_vector 0 [7, 8, 9] (reserve 3 100) = Some p1 \<and>
      get_vector 2 p1 = Some (Vector 3 2, p2) \<and> read_vector p2 3 2 = Some [7, 8, 9])"
proof -
  have r: "reachable (reserve 3 100)" by (rule reach_reserve) simp_all
  have fit: "m_size (reserve 3 100) + length [7, 8, 9::nat] + 2 < 4294967296"
    by (simp add: reserve_def)
  have c: "2 < length (m_heads (reserve 3 100))" by (simp add: reserve_def vec_resize_def)
  have ne: "(2::nat) \<noteq> 0" by simp
  have at: "m_heads (reserve 3 100) ! 2 = m_tail (reserve 3 100)"
    by (simp add: reserve_def vec_resize_def)
  have t: "m_tail (reserve 3 100) = 0" by (simp add: reserve_def)
  have l: "length [7, 8, 9::nat] = 3" by simp
  have z: "(0::nat) + 2 = 2" by simp
  note x = round_trip[OF r fit c ne at, unfolded t l z]
  show ?thesis using r fit c ne at x by blast
qed



text \<open>
  C10: in a reachable pool \<open>get_vector(c)\<close> terminates for every consumer \<open>c\<close>, with a record
  or with none, and its loop runs at most once per record of one pass over the buffer: twice
  the number of iterations is at most the size of the buffer plus one.
\<close>

theorem get_vector_terminates:
  assumes "reachable p" and "c < length (m_heads p)"
  shows "\<exists>r k p'. get_vector_loop c (m_heads p ! c) 0 p = Some (r, k, p') \<and>
     2 * k \<le> m_size p + 1 \<and> get_vector c p = Some (r, p')"
proof -
  have inv: "pool_inv p" using assms(1) by (rule reachable_inv)
  from get_vector_eq[OF inv assms(2)] show ?thesis by blast
qed

text \<open>
  The theorem for consumer 0 on the pool of size 10 that holds two records owned by 0: the
  loop runs twice and returns none.
\<close>

theorem get_vector_terminates_witness:
  "reachable pool_c2 \<and> 0 < length (m_heads pool_c2) \<and>
   get_vector_loop 0 (m_heads pool_c2 ! 0) 0 pool_c2 = Some (No_vector, 2, pool_c4) \<and>
   2 * 2 \<le> m_size pool_c2 + 1 \<and> get_vector 0 pool_c2 = Some (No_vector, pool_c4)"
proof -
  have c: "0 < length (m_heads pool_c2)" by (simp add: pool_c2_def)
  have h: "m_heads pool_c2 ! 0 = 0" by (simp add: pool_c2_def)
  from get_vector_terminates[OF reachable_pool_c2 c] obtain r k p' where
    g: "get_vector_loop 0 (m_heads pool_c2 ! 0) 0 pool_c2 = Some (r, k, p')"
      "2 * k \<le> m_size pool_c2 + 1" "get_vector 0 pool_c2 = Some (r, p')"
    by blast
  have e: "r = No_vector" "k = 2" "p' = pool_c4"
    using g(1) scenario_own_read_loop unfolding h by simp_all
  with g reachable_pool_c2 c show ?thesis by simp
qed

section \<open>Loss under pressure\<close>

text \<open>
  C3 (amended): after \<open>reserve(2, 10)\<close>, a complete write of a record of payload length 6 and a
  complete write of a record of payload length 2, the read cursor of a consumer other than the
  owner of the first record is still \<open>0\<close>, as it was before the writes; the second record lies
  behind the first one, the write cursor is back at \<open>0\<close>, and the consumer's next
  \<open>get_vector\<close> returns the first record.
\<close>

theorem first_record_kept:
  assumes "length es1 = 6" and "length es2 = 2" and "c < 2" and "c \<noteq> o1"
  shows "\<exists>p1 p2 p3. add_vector o1 es1 (reserve 2 10) = Some p1 \<and>
     add_vector o2 es2 p1 = Some p2 \<and>
     m_heads p1 ! c = 0 \<and> m_heads p2 ! c = 0 \<and> m_tail p1 = 8 \<and> m_tail p2 = 0 \<and>
     take 4 (drop 8 (m_vectors p2)) = o2 # 2 # es2 \<and>
     get_vector c p2 = Some (Vector 6 2, p3) \<and> read_vector p3 6 2 = Some es1"
proof -
  let ?p0 = "reserve 2 10"
  have inv0: "pool_inv ?p0" using reachable_reserve_2_10 by (rule reachable_inv)
  define p1 where "p1 = ?p0\<lparr>m_vectors :=
          store (vec_reserve (m_vectors ?p0) (m_size ?p0 + length es1 + 2) 0) (m_tail ?p0)
            (o1 # length es1 # es1),
        m_tail := (if m_size ?p0 \<le> m_tail ?p0 + length es1 + 2 then 0 else m_tail ?p0 + length es1 + 2),
        m_at_end := replicate (length (m_heads ?p0)) False\<rparr>"
  have fit0: "m_size ?p0 + length es1 + 2 < 4294967296" using assms(1) by (simp add: reserve_2_10)
  have a1: "add_vector o1 es1 ?p0 = Some p1"
    unfolding p1_def by (rule add_vector_exact[OF inv0 fit0]) (auto simp: reserve_2_10 less_Suc_eq)
  have inv1: "pool_inv p1" using pool_inv_add_vector[OF inv0 fit0 a1] .
  have s1: "m_size p1 = 10" "m_tail p1 = 8" "m_heads p1 = [0, 0]"
    "m_vectors p1 = o1 # 6 # es1 @ [0, 0, 0, 0, 0, 0, 0, 0, 0, 0]"
    using assms(1)
    by (simp_all add: p1_def reserve_2_10 store_def vec_reserve_def vec_resize_def replicate_num)
  define p2 where "p2 = p1\<lparr>m_vectors :=
          store (vec_reserve (m_vectors p1) (m_size p1 + length es2 + 2) 0) (m_tail p1)
            (o2 # length es2 # es2),
        m_tail := (if m_size p1 \<le> m_tail p1 + length es2 + 2 then 0 else m_tail p1 + length es2 + 2),
        m_at_end := replicate (length (m_heads p1)) False\<rparr>"
  have fit1: "m_size p1 + length es2 + 2 < 4294967296" using assms(2) s1 by simp
  have a2: "add_vector o2 es2 p1 = Some p2"
    unfolding p2_def by (rule add_vector_exact[OF inv1 fit1]) (auto simp: s1 less_Suc_eq)
  have inv2: "pool_inv p2" using pool_inv_add_vector[OF inv1 fit1 a2] .
  have s2: "m_size p2 = 10" "m_tail p2 = 0" "m_heads p2 = [0, 0]" "m_at_end p2 = [False, False]"
    "m_vectors p2 = o1 # 6 # es1 @ o2 # 2 # es2 @ [0, 0, 0, 0, 0, 0]"
    using assms(1,2)
    by (simp_all add: p2_def s1 store_def vec_reserve_def vec_resize_def replicate_num)
  have hc: "[0, 0::nat] ! c = 0" using assms(3) by (auto simp: less_Suc_eq numeral_2_eq_2)
  have ac: "[False, False] ! c = False" using assms(3) by (auto simp: less_Suc_eq numeral_2_eq_2)
  have g: "get_vector c p2 =
     Some (Vector (m_vectors p2 ! (m_heads p2 ! c + 1)) (m_heads p2 ! c + 2),
           moved p2 c (circ_next (m_vectors p2) (m_size p2) (m_heads p2 ! c)))"
    using assms(3,4) by (intro get_vector_foreign[OF inv2]) (simp_all add: s2 hc ac)
  define p3 where "p3 = moved p2 c (circ_next (m_vectors p2) (m_size p2) (m_heads p2 ! c))"
  have g': "get_vector c p2 = Some (Vector 6 2, p3)"
    using g by (simp add: s2 hc p3_def)
  have rd: "read_vector p3 6 2 = Some es1"
    using assms(1,2) by (simp add: read_vector_def p3_def s2)
  have t4: "take 4 (drop 8 (m_vectors p2)) = o2 # 2 # es2"
    using assms(1,2) by (simp add: s2)
  have h1: "m_heads p1 ! c = 0" by (simp add: s1 hc)
  have h2: "m_heads p2 ! c = 0" by (simp add: s2 hc)
  show ?thesis using a1 a2 h1 h2 s1(2) s2(2) t4 g' rd by blast
qed

text \<open>The theorem for consumer 1 and two records of owner 0.\<close>

theorem first_record_kept_witness:
  "length [11, 12, 13, 14, 15, 16::nat] = 6 \<and> length [21, 22::nat] = 2 \<and> (1::nat) < 2 \<and> (1::nat) \<noteq> 0 \<and>
   (\<exists>p1 p2 p3. add_vector 0 [11, 12, 13, 14, 15, 16] (reserve 2 10) = Some p1 \<and>
     add_vector 0 [21, 22] p1 = Some p2 \<and>
     m_heads p1 ! 1 = 0 \<and> m_heads p2 ! 1 = 0 \<and> m_tail p1 = 8 \<and> m_tail p2 = 0 \<and>
     take 4 (drop 8 (m_vectors p2)) = [0, 2, 21, 22] \<and>
     get_vector 1 p2 = Some (Vector 6 2, p3) \<and> read_vector p3 6 2 = Some [11, 12, 13, 14, 15, 16])"
  using first_record_kept[of "[11, 12, 13, 14, 15, 16]" "[21, 22]" 1 0 0] by simp

text \<open>
  C3 as stated fails: after the two writes the cursor of consumer 1 is \<open>0\<close>, inside the span of
  the first record, and its next \<open>get_vector\<close> returns the first record, of length 6, with the
  six words written.
\<close>

theorem first_record_returned_counterexample:
  "add_vector 0 [11, 12, 13, 14, 15, 16] (reserve 2 10) = Some pool_c1 \<and>
   add_vector 0 [21, 22] pool_c1 = Some pool_c2 \<and>
   m_heads pool_c2 ! 1 = 0 \<and>
   get_vector 1 pool_c2 = Some (Vector 6 2, pool_c3) \<and>
   read_vector pool_c3 6 2 = Some [11, 12, 13, 14, 15, 16]"
  using scenario_first_write scenario_second_write scenario_read scenario_payload
  by (simp add: pool_c2_def)

end
